theory Spec2Isabelle
  imports Main "HOL-Library.Multiset"
begin

section \<open>Objects with identity\<close>

text \<open>
  \<open>Global\<close> and \<open>Component\<close> entries are JavaScript objects: two entries with the same
  contents are still two objects, and \<open>t.merge\<close> and \<open>splice\<close> act on the object, not on
  a copy. An object is therefore a reference into a store; the store gives every reference
  its current contents. The differ compares entries by \<open>name\<close> only, so the remaining
  fields (\<open>init\<close> of a Global; \<open>props\<close>, \<open>state\<close> and \<open>template\<close> of a Component) are kept
  as one value of an arbitrary type \<open>'f\<close>. Globals and components are objects of two
  classes, and \<open>program.globals\<close> and \<open>program.components\<close> are typed arrays: there is one
  store for the objects of each class.
\<close>

type_synonym ref = nat

record 'f node =
  name :: string
  body :: 'f

type_synonym 'f heap = "ref \<Rightarrow> 'f node"

text \<open>A \<open>t.Program\<close>: its two arrays hold references.\<close>

record program =
  globals :: "ref list"
  components :: "ref list"

text \<open>The names of the entries of an array, read in a store.\<close>

definition names :: "'f heap \<Rightarrow> ref list \<Rightarrow> string list" where
  "names h rs = map (\<lambda>r. name (h r)) rs"

section \<open>The structural differ (CodeEditor.tsx, lines 11 to 67)\<close>

text \<open>\<open>(a, b) => a.name === b.name\<close>, the \<open>isEqual\<close> argument of both calls in \<open>diffAST\<close>.\<close>

definition isEqual :: "'f node \<Rightarrow> 'f node \<Rightarrow> bool" where
  "isEqual a b = (name a = name b)"

text \<open>
  Modelled from the spec: \<open>t.merge\<close> of the package \<open>@rekajs/types\<close>, which is not part of
  the sources at hand. The spec (section 4.1, step 1) says that the fields of the matched
  current entry are overwritten with those of the incoming entry, in place: the object
  \<open>a\<close> stays the same object and its contents become those of \<open>b\<close>.
\<close>

definition merge :: "'f heap \<Rightarrow> ref \<Rightarrow> ref \<Rightarrow> 'f heap" where
  "merge h a b = h(a := (h a)\<lparr>name := name (h b), body := body (h b)\<rparr>)"

text \<open>
  The first \<open>forEach\<close> (lines 22 to 33). \<open>find\<close> is \<open>Array.prototype.find\<close>: the first
  element of \<open>currentComponents\<close> that satisfies the predicate, here \<^const>\<open>List.find\<close>.
  The loop carries the store and \<open>componentsToInsert\<close>; \<open>i\<close> is the index of the
  incoming entry.
\<close>

fun mergeLoop :: "ref list \<Rightarrow> ref list \<Rightarrow> nat \<Rightarrow> 'f heap \<times> (ref \<times> nat) list
    \<Rightarrow> 'f heap \<times> (ref \<times> nat) list" where
  "mergeLoop currentComponents [] i acc = acc"
| "mergeLoop currentComponents (newComponent # rest) i (h, componentsToInsert) =
     mergeLoop currentComponents rest (Suc i)
       (case find (\<lambda>oldComponent. isEqual (h oldComponent) (h newComponent)) currentComponents of
          None \<Rightarrow> (h, componentsToInsert @ [(newComponent, i)])
        | Some existingComponent \<Rightarrow> (merge h existingComponent newComponent, componentsToInsert))"

text \<open>
  \<open>splice(start, 0, x)\<close> with \<open>start \<ge> 0\<close>: a start beyond the end is clamped to the
  length, which is what \<open>take\<close> and \<open>drop\<close> do.
\<close>

definition spliceInsert :: "nat \<Rightarrow> 'a \<Rightarrow> 'a list \<Rightarrow> 'a list" where
  "spliceInsert start x xs = take start xs @ x # drop start xs"

text \<open>The second \<open>forEach\<close> (lines 35 to 37): \<open>splice(index + i, 0, component)\<close>.\<close>

fun insertLoop :: "(ref \<times> nat) list \<Rightarrow> nat \<Rightarrow> ref list \<Rightarrow> ref list" where
  "insertLoop [] i currentComponents = currentComponents"
| "insertLoop ((component, index) # rest) i currentComponents =
     insertLoop rest (Suc i) (spliceInsert (index + i) component currentComponents)"

text \<open>
  \<open>indexOf\<close> compares references and answers \<open>-1\<close> when there is none;
  \<open>splice(start, 1)\<close> counts a negative start from the end.
\<close>

fun indexOf :: "ref list \<Rightarrow> ref \<Rightarrow> int" where
  "indexOf [] x = - 1"
| "indexOf (y # ys) x =
     (if y = x then 0 else (let k = indexOf ys x in if k < 0 then - 1 else k + 1))"

definition spliceDelete :: "int \<Rightarrow> 'a list \<Rightarrow> 'a list" where
  "spliceDelete start xs =
     (let n = int (length xs);
          s = nat (if start < 0 then max (n + start) 0 else min start n)
      in take s xs @ drop (Suc s) xs)"

text \<open>The last \<open>forEach\<close> (lines 46 to 48), over the array that \<open>filter\<close> returned.\<close>

fun removeLoop :: "ref list \<Rightarrow> ref list \<Rightarrow> ref list" where
  "removeLoop [] currentComponents = currentComponents"
| "removeLoop (component # rest) currentComponents =
     removeLoop rest (spliceDelete (indexOf currentComponents component) currentComponents)"

text \<open>
  \<open>_diffASTArrayTypes\<close>, for one of the two arrays: \<open>currentComponents\<close> is the array of
  \<open>program\<close>, mutated in place, and the result is the store and that array afterwards.
  The array of \<open>newProgram\<close> is only read; at both calls in \<open>syncCodeToState\<close> the two
  programs are different objects (a parse result, a copy made by \<open>fromJSON\<close>, the live
  graph), so the two arrays are never the same array.
\<close>

definition diffASTArrayTypes :: "'f heap \<Rightarrow> ref list \<Rightarrow> ref list \<Rightarrow> 'f heap \<times> ref list" where
  "diffASTArrayTypes h currentComponents newComponents =
     (let (h1, componentsToInsert) = mergeLoop currentComponents newComponents 0 (h, []);
          inserted = insertLoop componentsToInsert 0 currentComponents;
          removed = filter (\<lambda>oldComponent.
                      find (\<lambda>newComponent. isEqual (h1 oldComponent) (h1 newComponent)) newComponents
                        = None) inserted
      in (h1, removeLoop removed inserted))"

text \<open>
  \<open>diffAST\<close> (lines 51 to 67): the globals first, then the components. The state is the
  store of the globals and the store of the components.
\<close>

type_synonym ('g, 'c) stores = "'g heap \<times> 'c heap"

definition diffAST :: "('g, 'c) stores \<Rightarrow> program \<Rightarrow> program \<Rightarrow> ('g, 'c) stores \<times> program" where
  "diffAST st program newProgram =
     (let (hg, gs) = diffASTArrayTypes (fst st) (globals program) (globals newProgram);
          (hc, cs) = diffASTArrayTypes (snd st) (components program) (components newProgram)
      in ((hg, hc), \<lparr>globals = gs, components = cs\<rparr>))"

text \<open>
  The contract \<open>reconcile(current, incoming)\<close> of the spec is \<open>diffAST\<close>, here with its
  outcome as a value. Neither \<open>diffAST\<close> nor \<open>_diffASTArrayTypes\<close> has a \<open>throw\<close>, an
  assertion or a test of the keys, so no run ends in the error.
\<close>

datatype DiffError = InternalConsistencyError

definition reconcile ::
    "('g, 'c) stores \<Rightarrow> program \<Rightarrow> program \<Rightarrow> DiffError + ('g, 'c) stores \<times> program" where
  "reconcile st current incoming = Inr (diffAST st current incoming)"

text \<open>The invariant of the data model: the keys are unique within each sequence.\<close>

definition uniqueKeys :: "('g, 'c) stores \<Rightarrow> program \<Rightarrow> bool" where
  "uniqueKeys st p =
     (distinct (names (fst st) (globals p)) \<and> distinct (names (snd st) (components p)))"

text \<open>
  What the first loop leaves in \<open>componentsToInsert\<close> when it starts at index \<open>i\<close>: the
  incoming entries whose name no current entry has, each with its index. It is used to
  describe \<^const>\<open>mergeLoop\<close> in the proofs.
\<close>

fun unmatched :: "'f heap \<Rightarrow> ref list \<Rightarrow> ref list \<Rightarrow> nat \<Rightarrow> (ref \<times> nat) list" where
  "unmatched h cur [] i = []"
| "unmatched h cur (n # ns) i =
     (if name (h n) \<in> set (names h cur) then unmatched h cur ns (Suc i)
      else (n, i) # unmatched h cur ns (Suc i))"

section \<open>The synchronizer (CodeEditor.tsx, lines 91 to 252)\<close>

text \<open>
  The argument of \<open>props.onStatusChange\<close> (lines 69 to 82).
\<close>

datatype ParserStatus = Parsing | Error string | Success

text \<open>
  A program as the parser and the printer see it, without identity: the contents of the
  globals and of the components, in order.
\<close>

type_synonym ('g, 'c) ast = "'g node list \<times> 'c node list"

definition contentsOf :: "('g, 'c) stores \<Rightarrow> program \<Rightarrow> ('g, 'c) ast" where
  "contentsOf st p = (map (fst st) (globals p), map (snd st) (components p))"

text \<open>
  The state of one \<open>CodeEditor\<close>: the two stores with the next unused reference, the live
  graph \<open>reka.program\<close>, the React refs of lines 98 to 105, the document of the CodeMirror
  view and whether the view exists (\<open>codemirrorView\<close> is not null), the microtask queued
  by line 209, the timer of \<open>debounce\<close> with the argument of its last call, and the
  statuses passed to \<open>props.onStatusChange\<close> so far.
\<close>

record ('g, 'c) editor =
  stores :: "('g, 'c) stores"
  nextRef :: nat
  rekaProgram :: program
  currentState :: program
  currentCodeString :: string
  doc :: string
  hasView :: bool
  isSynchingFromCodeMirror :: bool
  isSynchingFromExternal :: bool
  isTyping :: bool
  queuedExternalSync :: bool
  pendingSync :: "string option"
  statuses :: "ParserStatus list"

text \<open>
  New objects: the parser and \<open>t.Schema.fromJSON\<close> build objects that did not exist before.
  \<open>allocNodes\<close> stores the given contents at the next unused references.
\<close>

fun allocNodes :: "'f node list \<Rightarrow> 'f heap \<Rightarrow> nat \<Rightarrow> 'f heap \<times> nat \<times> ref list" where
  "allocNodes [] h n = (h, n, [])"
| "allocNodes (v # vs) h n =
     (case allocNodes vs (h(n := v)) (Suc n) of (h', n', rs) \<Rightarrow> (h', n', n # rs))"

definition allocProgram ::
    "('g, 'c) ast \<Rightarrow> ('g, 'c) stores \<Rightarrow> nat \<Rightarrow> ('g, 'c) stores \<times> nat \<times> program" where
  "allocProgram a st n =
     (case allocNodes (fst a) (fst st) n of (hg, n1, gs) \<Rightarrow>
        (case allocNodes (snd a) (snd st) n1 of (hc, n2, cs) \<Rightarrow>
           ((hg, hc), n2, \<lparr>globals = gs, components = cs\<rparr>)))"

text \<open>
  Modelled from the spec: \<open>t.Schema.fromJSON\<close> of the package \<open>@rekajs/types\<close>, which is not
  part of the sources at hand. Applied to the live graph it yields the snapshot that the
  spec (section 4.2) calls the cached last-seen-from-text AST: a copy made of new objects
  with the same contents.
\<close>

definition fromJSON ::
    "('g, 'c) stores \<Rightarrow> nat \<Rightarrow> program \<Rightarrow> ('g, 'c) stores \<times> nat \<times> program" where
  "fromJSON st n p = allocProgram (contentsOf st p) st n"

text \<open>
  \<open>onExternalChange\<close> (lines 197 to 233), the part that runs at once; line 209 queues the
  rest as a microtask.
\<close>

definition onExternalChange :: "('g, 'c) editor \<Rightarrow> ('g, 'c) editor" where
  "onExternalChange s =
     (if isSynchingFromCodeMirror s \<or> isTyping s then s
      else if \<not> hasView s then s
      else if isSynchingFromExternal s = False
        then s\<lparr>isSynchingFromExternal := True, queuedExternalSync := True\<rparr>
      else s)"

text \<open>
  The update listener (lines 175 to 189). \<open>docChanged\<close> is \<open>view.docChanged\<close>; the document
  of the state is the one after the transaction. The call of the debounced function
  restarts the timer with the new argument.
\<close>

definition updateListener :: "bool \<Rightarrow> ('g, 'c) editor \<Rightarrow> ('g, 'c) editor" where
  "updateListener docChanged s =
     (if \<not> docChanged \<or> isSynchingFromExternal s then s
      else
        (let s1 = s\<lparr>isTyping := True\<rparr>;
             s2 = s1\<lparr>currentCodeString := doc s1\<rparr>;
             s3 = s2\<lparr>statuses := statuses s2 @ [Parsing]\<rparr>
         in s3\<lparr>pendingSync := Some (currentCodeString s3)\<rparr>))"

text \<open>
  \<open>codemirrorView.dispatch\<close> of the transaction of lines 220 to 226, which replaces the
  text from \<open>0\<close> to \<open>doc.length\<close> by \<open>newCode\<close>: the document becomes \<open>newCode\<close>, and the
  update listener runs with \<open>docChanged\<close> true unless nothing was replaced by nothing.
\<close>

definition dispatchReplaceAll :: "string \<Rightarrow> ('g, 'c) editor \<Rightarrow> ('g, 'c) editor" where
  "dispatchReplaceAll newCode s =
     updateListener (doc s \<noteq> [] \<or> newCode \<noteq> []) (s\<lparr>doc := newCode\<rparr>)"

text \<open>
  The microtask of lines 209 to 231. \<open>stringify\<close> is \<open>Parser.stringify\<close>, the printer, a
  parameter: the package \<open>@rekajs/parser\<close> is not part of the sources at hand.
\<close>

definition externalSync :: "(('g, 'c) ast \<Rightarrow> string) \<Rightarrow> ('g, 'c) editor \<Rightarrow> ('g, 'c) editor" where
  "externalSync stringify s =
     (let oldCode = currentCodeString s;
          newCode = stringify (contentsOf (stores s) (rekaProgram s))
      in if newCode = oldCode then s\<lparr>isSynchingFromExternal := False\<rparr>
         else
           (case fromJSON (stores s) (nextRef s) (rekaProgram s) of (st1, n1, copy) \<Rightarrow>
              (let s1 = s\<lparr>stores := st1, nextRef := n1, currentState := copy\<rparr>;
                   s2 = s1\<lparr>currentCodeString := newCode\<rparr>;
                   s3 = dispatchReplaceAll newCode s2
               in s3\<lparr>isSynchingFromExternal := False\<rparr>)))"

definition runMicrotask :: "(('g, 'c) ast \<Rightarrow> string) \<Rightarrow> ('g, 'c) editor \<Rightarrow> ('g, 'c) editor" where
  "runMicrotask stringify s =
     (if queuedExternalSync s then externalSync stringify (s\<lparr>queuedExternalSync := False\<rparr>)
      else s)"

text \<open>
  Modelled from the spec: \<open>reka.change\<close> and \<open>reka.listenToChanges\<close> of the package
  \<open>@rekajs/core\<close>, which is not part of the sources at hand. The spec (section 4.3) says
  that the mutations of one transaction are reported as exactly one \<open>change\<close> event, which
  reaches the subscribers before the publishing call returns. The one subscriber of this
  file is the listener of lines 238 to 244, which calls \<open>onExternalChange\<close>.
\<close>

definition notifyChange :: "('g, 'c) editor \<Rightarrow> ('g, 'c) editor" where
  "notifyChange s = onExternalChange s"

text \<open>
  The function under \<open>debounce\<close> (lines 109 to 135). \<open>parseProgram\<close> is
  \<open>Parser.parseProgram\<close>, a parameter: it answers \<open>Inl message\<close> where the parser throws an
  error with that message, and the contents of the parsed program otherwise, for which
  new objects are made. The \<open>catch\<close> of line 127 is the \<open>Inl\<close> branch.
\<close>

definition syncCodeToState ::
    "(string \<Rightarrow> string + ('g, 'c) ast) \<Rightarrow> string \<Rightarrow> ('g, 'c) editor \<Rightarrow> ('g, 'c) editor" where
  "syncCodeToState parseProgram code s =
     (if isSynchingFromExternal s then s
      else
        (let s1 = s\<lparr>isSynchingFromCodeMirror := True\<rparr>;
             s2 = (case parseProgram code of
                     Inl message \<Rightarrow> s1\<lparr>statuses := statuses s1 @ [Error message]\<rparr>
                   | Inr parsed \<Rightarrow>
                       (case allocProgram parsed (stores s1) (nextRef s1) of (st1, n1, newAST) \<Rightarrow>
                          (case diffAST st1 (currentState s1) newAST of (st2, snapshot) \<Rightarrow>
                             (case diffAST st2 (rekaProgram s1) snapshot of (st3, live) \<Rightarrow>
                                (let s3 = notifyChange
                                            (s1\<lparr>stores := st3, nextRef := n1,
                                                currentState := snapshot, rekaProgram := live\<rparr>)
                                 in s3\<lparr>statuses := statuses s3 @ [Success]\<rparr>)))));
             s4 = s2\<lparr>isSynchingFromCodeMirror := False\<rparr>
         in s4\<lparr>isTyping := False\<rparr>))"

text \<open>The timer of \<open>debounce\<close> fires: the function runs with the argument of the last call.\<close>

definition debounceFire ::
    "(string \<Rightarrow> string + ('g, 'c) ast) \<Rightarrow> ('g, 'c) editor \<Rightarrow> ('g, 'c) editor" where
  "debounceFire parseProgram s =
     (case pendingSync s of
        None \<Rightarrow> s
      | Some code \<Rightarrow> syncCodeToState parseProgram code (s\<lparr>pendingSync := None\<rparr>))"

text \<open>The user changes the text of the editor to \<open>text\<close>: one transaction that changes the document.\<close>

definition userEdit :: "string \<Rightarrow> ('g, 'c) editor \<Rightarrow> ('g, 'c) editor" where
  "userEdit text s = updateListener True (s\<lparr>doc := text\<rparr>)"

text \<open>
  A mutation of the live graph from outside the editor, as \<open>GlobalSettings.tsx\<close> (lines 37
  to 50) does for a global: inside \<open>reka.change\<close>, a new object is pushed onto an array of
  \<open>reka.program\<close>. Here it is a new component.
\<close>

definition externalAddComponent :: "'c node \<Rightarrow> ('g, 'c) editor \<Rightarrow> ('g, 'c) editor" where
  "externalAddComponent v s =
     notifyChange
       (s\<lparr>stores := (fst (stores s), (snd (stores s))(nextRef s := v)),
          nextRef := Suc (nextRef s),
          rekaProgram := (rekaProgram s)\<lparr>components := components (rekaProgram s) @ [nextRef s]\<rparr>\<rparr>)"

text \<open>
  The editor when the component is mounted and the view exists (lines 98 to 105 and 152
  to 155): the snapshot is a copy of the live graph, the cached code string is its print,
  and the view shows that string.
\<close>

definition initEditor ::
    "(('g, 'c) ast \<Rightarrow> string) \<Rightarrow> ('g, 'c) stores \<Rightarrow> nat \<Rightarrow> program \<Rightarrow> ('g, 'c) editor" where
  "initEditor stringify st n p =
     (case fromJSON st n p of (st1, n1, copy) \<Rightarrow>
        \<lparr>stores = st1, nextRef = n1, rekaProgram = p, currentState = copy,
         currentCodeString = stringify (contentsOf st p), doc = stringify (contentsOf st p),
         hasView = True, isSynchingFromCodeMirror = False, isSynchingFromExternal = False,
         isTyping = False, queuedExternalSync = False, pendingSync = None, statuses = []\<rparr>)"

section \<open>Properties of a reconciliation, as predicates\<close>

text \<open>
  What it means that one sequence was reconciled in place: \<open>h\<close> and \<open>cur\<close> are the store
  and the current sequence before, \<open>new\<close> is the incoming sequence, \<open>h'\<close> and \<open>cur'\<close> are
  the store and the current sequence after. An entry of \<open>cur\<close> whose name occurs in \<open>new\<close>
  is still in \<open>cur'\<close>, as the same object, and holds the contents of the incoming entry of
  that name; an entry of \<open>cur\<close> is gone only if its name does not occur in \<open>new\<close>; an entry
  of \<open>cur'\<close> that was not in \<open>cur\<close> is an object of \<open>new\<close> whose name no entry of \<open>cur\<close>
  had, with its contents untouched; and the entries kept from \<open>cur\<close> are each there once,
  in the order they had.
\<close>

definition reconciledInPlace ::
    "'f heap \<Rightarrow> ref list \<Rightarrow> ref list \<Rightarrow> 'f heap \<Rightarrow> ref list \<Rightarrow> bool" where
  "reconciledInPlace h cur new h' cur' =
     ((\<forall>r \<in> set cur. name (h r) \<in> set (names h new) \<longrightarrow>
          r \<in> set cur' \<and> (\<exists>n \<in> set new. name (h n) = name (h r) \<and> h' r = h n))
      \<and> (\<forall>r \<in> set cur. r \<notin> set cur' \<longrightarrow> name (h r) \<notin> set (names h new))
      \<and> (\<forall>r \<in> set cur'. r \<notin> set cur \<longrightarrow>
          r \<in> set new \<and> name (h r) \<notin> set (names h cur) \<and> h' r = h r)
      \<and> filter (\<lambda>r. r \<in> set cur) cur' = filter (\<lambda>r. name (h r) \<in> set (names h new)) cur)"

text \<open>
  \<open>new\<close> differs from \<open>cur\<close> by exactly one added key, at index \<open>k\<close>: without that entry it
  has the keys of \<open>cur\<close>, in the same order, and no entry of \<open>cur\<close> has the key of the added
  one.
\<close>

definition addedKey :: "'f heap \<Rightarrow> ref list \<Rightarrow> ref list \<Rightarrow> nat \<Rightarrow> bool" where
  "addedKey h cur new k =
     (k < length new \<and> names h (take k new @ drop (Suc k) new) = names h cur
      \<and> name (h (new ! k)) \<notin> set (names h cur))"

text \<open>\<open>new\<close> differs from \<open>cur\<close> by exactly one removed key, the one at index \<open>k\<close> of \<open>cur\<close>.\<close>

definition removedKey :: "'f heap \<Rightarrow> ref list \<Rightarrow> ref list \<Rightarrow> nat \<Rightarrow> bool" where
  "removedKey h cur new k =
     (k < length cur \<and> names h new = names h (take k cur @ drop (Suc k) cur))"

text \<open>
  \<open>new\<close> changes no field: an entry of \<open>new\<close> and an entry of \<open>cur\<close> of the same key have the
  same contents.
\<close>

definition sameFields :: "'f heap \<Rightarrow> ref list \<Rightarrow> ref list \<Rightarrow> bool" where
  "sameFields h cur new =
     (\<forall>n \<in> set new. \<forall>c \<in> set cur. name (h n) = name (h c) \<longrightarrow> h n = h c)"

text \<open>
  What the differ does with the entries of one key: \<open>lastOfKey\<close> is the last entry of
  \<open>new\<close> with the key \<open>k\<close>. For every incoming entry \<open>n\<close>: if the search finds a current
  entry \<open>c\<close> for its key, then \<open>c\<close> is in the result, \<open>n\<close> is not, and \<open>c\<close> holds the
  contents of the last incoming entry of that key; if it finds none, then \<open>n\<close> itself is
  in the result, with its contents untouched.
\<close>

definition lastOfKey :: "'f heap \<Rightarrow> ref list \<Rightarrow> string \<Rightarrow> ref" where
  "lastOfKey h new k = last (filter (\<lambda>n. name (h n) = k) new)"

definition duplicatesMerged ::
    "'f heap \<Rightarrow> ref list \<Rightarrow> ref list \<Rightarrow> 'f heap \<Rightarrow> ref list \<Rightarrow> bool" where
  "duplicatesMerged h cur new h' cur' =
     (\<forall>n \<in> set new.
        (case find (\<lambda>old. isEqual (h old) (h n)) cur of
           None \<Rightarrow> n \<in> set cur' \<and> h' n = h n
         | Some c \<Rightarrow> c \<in> set cur' \<and> n \<notin> set cur'
                      \<and> h' c = h (lastOfKey h new (name (h n)))))"

text \<open>
  The state of an editor is well formed when the keys of the live graph and of the
  snapshot are unique within each sequence and every object of both exists, that is,
  lies below the next unused reference.
\<close>

definition allocated :: "nat \<Rightarrow> program \<Rightarrow> bool" where
  "allocated n p = (\<forall>r \<in> set (globals p) \<union> set (components p). r < n)"

definition wellFormed :: "('g, 'c) editor \<Rightarrow> bool" where
  "wellFormed s =
     (uniqueKeys (stores s) (rekaProgram s) \<and> uniqueKeys (stores s) (currentState s)
      \<and> allocated (nextRef s) (rekaProgram s) \<and> allocated (nextRef s) (currentState s))"

section \<open>Example inputs\<close>

text \<open>
  Two stores whose objects have a string as their remaining fields, and programs over
  them: \<open>exCurrent\<close> is the current tree; \<open>exCopy\<close> is a deep copy of it, \<open>exReordered\<close> has
  the same entries in the other order, \<open>exEdited\<close> has another body for \<open>App\<close>,
  \<open>exDuplicate\<close> has the key \<open>a\<close> twice, and the last four differ from \<open>exCurrent\<close> by one
  added or one removed entry.
\<close>

definition exGlobals :: "string heap" where
  "exGlobals = (\<lambda>_. \<lparr>name = [], body = []\<rparr>)
     (1 := \<lparr>name = ''a'', body = ''1''\<rparr>, 2 := \<lparr>name = ''b'', body = ''2''\<rparr>,
      3 := \<lparr>name = ''b'', body = ''2''\<rparr>, 4 := \<lparr>name = ''a'', body = ''1''\<rparr>,
      5 := \<lparr>name = ''x'', body = ''5''\<rparr>, 6 := \<lparr>name = ''y'', body = ''6''\<rparr>,
      7 := \<lparr>name = ''a'', body = ''first''\<rparr>, 8 := \<lparr>name = ''a'', body = ''second''\<rparr>)"

definition exComponents :: "string heap" where
  "exComponents = (\<lambda>_. \<lparr>name = [], body = []\<rparr>)
     (1 := \<lparr>name = ''App'', body = ''old''\<rparr>, 2 := \<lparr>name = ''Button'', body = ''b''\<rparr>,
      3 := \<lparr>name = ''App'', body = ''new''\<rparr>, 4 := \<lparr>name = ''Card'', body = ''c''\<rparr>,
      5 := \<lparr>name = ''Button'', body = ''b''\<rparr>, 6 := \<lparr>name = ''App'', body = ''old''\<rparr>)"

definition exStores :: "(string, string) stores" where
  "exStores = (exGlobals, exComponents)"

definition exCurrent :: program where
  "exCurrent = \<lparr>globals = [1, 2], components = [1, 2]\<rparr>"

definition exReordered :: program where
  "exReordered = \<lparr>globals = [3, 4], components = [5, 6]\<rparr>"

definition exCopy :: program where
  "exCopy = \<lparr>globals = [4, 3], components = [6, 5]\<rparr>"

definition exEdited :: program where
  "exEdited = \<lparr>globals = [4, 3], components = [3, 5]\<rparr>"

definition exDuplicate :: program where
  "exDuplicate = \<lparr>globals = [7, 8], components = [6, 5]\<rparr>"

definition exAddedGlobal :: program where
  "exAddedGlobal = \<lparr>globals = [4, 5, 3], components = [6, 5]\<rparr>"

definition exAddedComponent :: program where
  "exAddedComponent = \<lparr>globals = [4, 3], components = [6, 4, 5]\<rparr>"

definition exRemovedGlobal :: program where
  "exRemovedGlobal = \<lparr>globals = [3], components = [6, 5]\<rparr>"

definition exRemovedComponent :: program where
  "exRemovedComponent = \<lparr>globals = [4, 3], components = [5]\<rparr>"

text \<open>
  \<open>exDuplicateMiddle\<close> has the key \<open>a\<close> twice, followed by \<open>b\<close>; \<open>exEmpty\<close> has no entry.
\<close>

definition exDuplicateMiddle :: program where
  "exDuplicateMiddle = \<lparr>globals = [7, 8, 3], components = [6, 5]\<rparr>"

definition exEmpty :: program where
  "exEmpty = \<lparr>globals = [], components = []\<rparr>"

text \<open>
  A printer and a parser for the examples: the printer writes \<open>name=body;\<close> for a global
  and \<open>name{body}\<close> for a component; the parser knows one text, in which the body of \<open>App\<close>
  is \<open>new\<close>, and fails on every other text. \<open>exEditor\<close> is the editor mounted on
  \<open>exCurrent\<close>, and \<open>exCard2\<close> is the component that a peer adds.
\<close>

definition exPrint :: "(string, string) ast \<Rightarrow> string" where
  "exPrint a = concat (map (\<lambda>v. name v @ ''='' @ body v @ '';'') (fst a))
             @ concat (map (\<lambda>v. name v @ ''{'' @ body v @ ''}'') (snd a))"

definition exText :: string where
  "exText = ''a=1;b=2;App{new}Button{b}''"

definition exParse :: "string \<Rightarrow> string + (string, string) ast" where
  "exParse code =
     (if code = exText
      then Inr ([\<lparr>name = ''a'', body = ''1''\<rparr>, \<lparr>name = ''b'', body = ''2''\<rparr>],
                [\<lparr>name = ''App'', body = ''new''\<rparr>, \<lparr>name = ''Button'', body = ''b''\<rparr>])
      else Inl ''Unexpected token'')"

definition exEditor :: "(string, string) editor" where
  "exEditor = initEditor exPrint exStores 9 exCurrent"

definition exCard2 :: "string node" where
  "exCard2 = \<lparr>name = ''Card2'', body = ''card''\<rparr>"

text \<open>
  A parser that answers a program with the key \<open>a\<close> twice among its globals, and the
  example editor after a peer has added \<open>Card2\<close> to the live graph, before the change is
  notified.
\<close>

definition exParseDuplicate :: "string \<Rightarrow> string + (string, string) ast" where
  "exParseDuplicate code =
     Inr ([\<lparr>name = ''a'', body = ''first''\<rparr>, \<lparr>name = ''a'', body = ''second''\<rparr>,
           \<lparr>name = ''b'', body = ''2''\<rparr>],
          [\<lparr>name = ''App'', body = ''old''\<rparr>, \<lparr>name = ''Button'', body = ''b''\<rparr>])"

definition exEditorAdded :: "(string, string) editor" where
  "exEditorAdded =
     exEditor\<lparr>stores := (fst (stores exEditor), (snd (stores exEditor))(nextRef exEditor := exCard2)),
              nextRef := Suc (nextRef exEditor),
              rekaProgram := (rekaProgram exEditor)
                \<lparr>components := components (rekaProgram exEditor) @ [nextRef exEditor]\<rparr>\<rparr>"

section \<open>Lemmas about the differ\<close>

subsection \<open>Names and the search by name\<close>

text \<open>
  \<open>find\<close> with \<open>isEqual\<close> looks for an entry of a given name; it depends on the store
  only through the names.
\<close>

lemma find_name_None: "(find (\<lambda>old. isEqual (h old) v) cur = None) = (name v \<notin> set (names h cur))"
  by (force simp: find_None_iff isEqual_def names_def)

lemma find_name_None': "(find (\<lambda>new. isEqual v (h new)) ns = None) = (name v \<notin> set (names h ns))"
  by (force simp: find_None_iff isEqual_def names_def)

lemma find_name_Some:
  "find (\<lambda>old. isEqual (h old) v) cur = Some c \<Longrightarrow> c \<in> set cur \<and> name (h c) = name v"
  by (auto simp: find_Some_iff isEqual_def)

lemma in_names: "r \<in> set rs \<Longrightarrow> name (h r) \<in> set (names h rs)"
  by (simp add: names_def)

lemma names_cong: "(\<And>r. name (h' r) = name (h r)) \<Longrightarrow> names h' rs = names h rs"
  by (simp add: names_def)

lemma names_append: "names h (xs @ ys) = names h xs @ names h ys"
  by (simp add: names_def)

lemma names_Cons: "names h (x # xs) = name (h x) # names h xs"
  by (simp add: names_def)

lemma names_contents: "map h rs = vs \<Longrightarrow> names h rs = map name vs"
  by (induction rs arbitrary: vs) (auto simp: names_def)

lemma names_frame: "(\<And>r. r \<in> set rs \<Longrightarrow> h' r = h r) \<Longrightarrow> names h' rs = names h rs"
  by (simp add: names_def)

lemma distinct_names_eq:
  "distinct (names h rs) \<Longrightarrow> a \<in> set rs \<Longrightarrow> b \<in> set rs \<Longrightarrow> name (h a) = name (h b) \<Longrightarrow> a = b"
  unfolding names_def by (metis distinct_map inj_onD)

lemma find_unique:
  assumes "distinct (names h cur)" and "r \<in> set cur" and "name (h r) = name v"
  shows "find (\<lambda>old. isEqual (h old) v) cur = Some r"
proof (cases "find (\<lambda>old. isEqual (h old) v) cur")
  case None
  then have "name v \<notin> set (names h cur)" by (simp add: find_name_None)
  then show ?thesis using assms(2,3) in_names [of r cur h] by simp
next
  case (Some c)
  then have "c \<in> set cur" "name (h c) = name v" by (simp_all add: find_name_Some)
  then have "c = r" using assms distinct_names_eq [of h cur c r] by simp
  then show ?thesis using Some by simp
qed

lemma find_isEqual_cong:
  "(\<And>r. name (h1 r) = name (h r)) \<Longrightarrow>
     find (\<lambda>old. isEqual (h1 old) (h1 n)) cur = find (\<lambda>old. isEqual (h old) (h n)) cur"
  by (simp add: isEqual_def)

subsection \<open>The merge of one entry\<close>

text \<open>
  \<open>merge\<close> is called on two entries of the same name only, so it never changes a name.
\<close>

lemma node_overwrite: "(a::'f node)\<lparr>name := name b, body := body b\<rparr> = b"
  by (cases a, cases b) simp

lemma merge_eq: "merge h a b = h(a := h b)"
  by (simp add: merge_def node_overwrite)

lemma merge_name: "name (h a) = name (h b) \<Longrightarrow> name (merge h a b r) = name (h r)"
  by (simp add: merge_def)

lemma merge_same: "h c = h n \<Longrightarrow> merge h c n = h"
  by (metis merge_eq fun_upd_triv)

lemma merge_target: "merge h c n c = h n"
  by (simp add: merge_eq)

lemma merge_other: "r \<noteq> c \<Longrightarrow> merge h c n r = h r"
  by (simp add: merge_def)

subsection \<open>The first loop\<close>

text \<open>
  The first loop leaves every name as it was, collects the unmatched incoming entries with
  their indices, and writes to the matched current entries only.
\<close>

lemma mergeLoop_name: "name (fst (mergeLoop cur new i (h, ins)) r) = name (h r)"
proof (induction new arbitrary: i h ins)
  case Nil
  show ?case by simp
next
  case (Cons n ns)
  show ?case
  proof (cases "find (\<lambda>old. isEqual (h old) (h n)) cur")
    case None
    then show ?thesis using Cons.IH by simp
  next
    case (Some c)
    then have "name (h c) = name (h n)" by (simp add: find_name_Some)
    then have "name (merge h c n r) = name (h r)" by (rule merge_name)
    then show ?thesis using Some Cons.IH by simp
  qed
qed

lemma mergeLoop_snd: "snd (mergeLoop cur new i (h, ins)) = ins @ unmatched h cur new i"
proof (induction new arbitrary: i h ins)
  case Nil
  show ?case by simp
next
  case (Cons n ns)
  show ?case
  proof (cases "find (\<lambda>old. isEqual (h old) (h n)) cur")
    case None
    then have "name (h n) \<notin> set (names h cur)" by (simp add: find_name_None)
    then show ?thesis using None Cons.IH by simp
  next
    case (Some c)
    then have eq: "name (h c) = name (h n)" by (simp add: find_name_Some)
    have nm: "\<And>r. name (merge h c n r) = name (h r)" using eq by (rule merge_name)
    have in_cur: "name (h n) \<in> set (names h cur)"
      using Some find_name_None [of h "h n" cur] by auto
    have "unmatched (merge h c n) cur ns (Suc i) = unmatched h cur ns (Suc i)"
      by (induction ns arbitrary: i) (simp_all add: nm names_cong [of "merge h c n" h, OF nm])
    then show ?thesis using Some Cons.IH in_cur by simp
  qed
qed

lemma mergeLoop_append:
  "mergeLoop cur (xs @ ys) i acc = mergeLoop cur ys (i + length xs) (mergeLoop cur xs i acc)"
proof (induction xs arbitrary: i acc)
  case Nil
  show ?case by simp
next
  case (Cons x xs)
  obtain h ins where acc: "acc = (h, ins)" by (cases acc)
  show ?case unfolding acc by (simp add: Cons.IH)
qed

lemma mergeLoop_unchanged:
  "(\<And>n c. n \<in> set new \<Longrightarrow> find (\<lambda>old. isEqual (h old) (h n)) cur = Some c \<Longrightarrow> h c = h n) \<Longrightarrow>
     fst (mergeLoop cur new i (h, ins)) = h"
proof (induction new arbitrary: i ins)
  case Nil
  show ?case by simp
next
  case (Cons n ns)
  have ih: "\<And>i ins. fst (mergeLoop cur ns i (h, ins)) = h"
    by (rule Cons.IH) (rule Cons.prems, simp_all)
  show ?case
  proof (cases "find (\<lambda>old. isEqual (h old) (h n)) cur")
    case None
    then show ?thesis using ih by simp
  next
    case (Some c)
    then have "h c = h n" using Cons.prems [of n c] by simp
    then have "merge h c n = h" by (rule merge_same)
    then show ?thesis using Some ih by simp
  qed
qed

lemma mergeLoop_other:
  "(\<And>n. n \<in> set new \<Longrightarrow> find (\<lambda>old. isEqual (h old) (h n)) cur \<noteq> Some r) \<Longrightarrow>
     fst (mergeLoop cur new i (h, ins)) r = h r"
proof (induction new arbitrary: i ins h)
  case Nil
  show ?case by simp
next
  case (Cons n ns)
  show ?case
  proof (cases "find (\<lambda>old. isEqual (h old) (h n)) cur")
    case None
    have "fst (mergeLoop cur ns (Suc i) (h, ins @ [(n, i)])) r = h r"
      by (rule Cons.IH) (rule Cons.prems, simp)
    then show ?thesis using None by simp
  next
    case (Some c)
    then have eq: "name (h c) = name (h n)" by (simp add: find_name_Some)
    have nm: "\<And>x. name (merge h c n x) = name (h x)" using eq by (rule merge_name)
    have "r \<noteq> c" using Cons.prems [of n] Some by auto
    then have keep: "merge h c n r = h r" by (rule merge_other)
    have "fst (mergeLoop cur ns (Suc i) (merge h c n, ins)) r = merge h c n r"
    proof (rule Cons.IH)
      fix m assume "m \<in> set ns"
      then show "find (\<lambda>old. isEqual (merge h c n old) (merge h c n m)) cur \<noteq> Some r"
        using Cons.prems [of m] by (simp add: find_isEqual_cong [of "merge h c n" h, OF nm])
    qed
    then show ?thesis using Some keep by simp
  qed
qed

lemma mergeLoop_target:
  "distinct (names h new) \<Longrightarrow> n \<in> set new \<Longrightarrow>
     find (\<lambda>old. isEqual (h old) (h n)) cur = Some c \<Longrightarrow>
     fst (mergeLoop cur new i (h, ins)) c = h n"
proof (induction new arbitrary: i ins h)
  case Nil
  then show ?case by simp
next
  case (Cons m ms)
  from Cons.prems(1) have dms: "distinct (names h ms)" and mnot: "name (h m) \<notin> set (names h ms)"
    by (simp_all add: names_def)
  from Cons.prems(3) have cn: "name (h c) = name (h n)" by (simp add: find_name_Some)
  show ?case
  proof (cases "n = m")
    case True
    let ?h1 = "merge h c m"
    have nm: "\<And>x. name (?h1 x) = name (h x)" using cn True by (simp add: merge_name)
    have "fst (mergeLoop cur ms (Suc i) (?h1, ins)) c = ?h1 c"
    proof (rule mergeLoop_other)
      fix k assume k: "k \<in> set ms"
      show "find (\<lambda>old. isEqual (?h1 old) (?h1 k)) cur \<noteq> Some c"
      proof
        assume "find (\<lambda>old. isEqual (?h1 old) (?h1 k)) cur = Some c"
        then have "find (\<lambda>old. isEqual (h old) (h k)) cur = Some c"
          by (simp add: find_isEqual_cong [of ?h1 h, OF nm])
        then have "name (h c) = name (h k)" by (simp add: find_name_Some)
        then have "name (h m) \<in> set (names h ms)" using cn True in_names [OF k, of h] by simp
        then show False using mnot by simp
      qed
    qed
    then show ?thesis using Cons.prems(3) True by (simp add: merge_target)
  next
    case False
    with Cons.prems(2) have nin: "n \<in> set ms" by simp
    then have neq: "name (h n) \<noteq> name (h m)" using mnot in_names [OF nin, of h] by auto
    show ?thesis
    proof (cases "find (\<lambda>old. isEqual (h old) (h m)) cur")
      case None
      have "fst (mergeLoop cur ms (Suc i) (h, ins @ [(m, i)])) c = h n"
        using dms nin Cons.prems(3) by (rule Cons.IH)
      then show ?thesis using None by simp
    next
      case (Some c0)
      let ?h1 = "merge h c0 m"
      from Some have c0m: "name (h c0) = name (h m)" by (simp add: find_name_Some)
      have nm: "\<And>x. name (?h1 x) = name (h x)" using c0m by (rule merge_name)
      have "n \<noteq> c0" using c0m neq by auto
      then have hn: "?h1 n = h n" by (rule merge_other)
      have "fst (mergeLoop cur ms (Suc i) (?h1, ins)) c = ?h1 n"
      proof (rule Cons.IH)
        show "distinct (names ?h1 ms)" using dms by (simp add: names_cong [of ?h1 h, OF nm])
        show "n \<in> set ms" by (rule nin)
        show "find (\<lambda>old. isEqual (?h1 old) (?h1 n)) cur = Some c"
          using Cons.prems(3) by (simp add: find_isEqual_cong [of ?h1 h, OF nm])
      qed
      then show ?thesis using Some hn by simp
    qed
  qed
qed

lemma unmatched_fst: "p \<in> set (unmatched h cur new i) \<Longrightarrow>
   fst p \<in> set new \<and> name (h (fst p)) \<notin> set (names h cur)"
  by (induction new arbitrary: i) (auto split: if_splits)

lemma map_fst_unmatched: "map fst (unmatched h cur new i) = filter (\<lambda>n. name (h n) \<notin> set (names h cur)) new"
  by (induction new arbitrary: i) auto

lemma set_unmatched:
  "fst ` set (unmatched h cur new i) = {n \<in> set new. name (h n) \<notin> set (names h cur)}"
proof -
  have "fst ` set (unmatched h cur new i) = set (map fst (unmatched h cur new i))" by simp
  then show ?thesis by (simp only: map_fst_unmatched) auto
qed

lemma unmatched_append:
  "unmatched h cur (xs @ ys) i = unmatched h cur xs i @ unmatched h cur ys (i + length xs)"
  by (induction xs arbitrary: i) simp_all

lemma unmatched_none:
  "set (names h xs) \<subseteq> set (names h cur) \<Longrightarrow> unmatched h cur xs i = []"
  by (induction xs arbitrary: i) (simp_all add: names_def)

subsection \<open>The second loop\<close>

text \<open>
  An insertion adds one element and moves none of the others past each other.
\<close>

lemma set_spliceInsert: "set (spliceInsert k x xs) = insert x (set xs)"
proof -
  have "set (take k xs) \<union> set (drop k xs) = set xs"
    by (metis append_take_drop_id set_append)
  then show ?thesis by (auto simp: spliceInsert_def)
qed

lemma filter_spliceInsert: "\<not> Q x \<Longrightarrow> filter Q (spliceInsert k x xs) = filter Q xs"
proof -
  assume "\<not> Q x"
  then have "filter Q (spliceInsert k x xs) = filter Q (take k xs) @ filter Q (drop k xs)"
    by (simp add: spliceInsert_def)
  also have "\<dots> = filter Q (take k xs @ drop k xs)" by (simp only: filter_append)
  also have "\<dots> = filter Q xs" by (simp only: append_take_drop_id)
  finally show ?thesis .
qed

lemma mset_spliceInsert: "mset (spliceInsert k x xs) = add_mset x (mset xs)"
proof -
  have "mset (take k xs) + mset (drop k xs) = mset xs"
    by (metis append_take_drop_id mset_append)
  then show ?thesis by (simp add: spliceInsert_def)
qed

lemma mset_insertLoop: "mset (insertLoop ins i cur) = mset (map fst ins) + mset cur"
  by (induction ins arbitrary: i cur) (auto simp: mset_spliceInsert)

lemma set_insertLoop: "set (insertLoop ins i cur) = fst ` set ins \<union> set cur"
  by (induction ins arbitrary: i cur) (force simp: set_spliceInsert)+

lemma filter_insertLoop:
  "\<forall>p \<in> set ins. \<not> Q (fst p) \<Longrightarrow> filter Q (insertLoop ins i cur) = filter Q cur"
  by (induction ins arbitrary: i cur) (auto simp: filter_spliceInsert)

subsection \<open>The third loop\<close>

text \<open>
  Every element that the third loop looks up is still in the array, so \<open>indexOf\<close> never
  answers \<open>-1\<close> there and the loop removes exactly the entries that \<open>filter\<close> selected.
\<close>

lemma indexOf_notin: "x \<notin> set xs \<Longrightarrow> indexOf xs x = - 1"
  by (induction xs) (auto simp: Let_def)

lemma indexOf_in: "x \<in> set xs \<Longrightarrow> 0 \<le> indexOf xs x \<and> indexOf xs x < int (length xs)"
  by (induction xs) (auto simp: Let_def)

lemma spliceDelete_indexOf: "x \<in> set xs \<Longrightarrow> spliceDelete (indexOf xs x) xs = remove1 x xs"
proof (induction xs)
  case Nil
  then show ?case by simp
next
  case (Cons y ys)
  show ?case
  proof (cases "y = x")
    case True
    then show ?thesis by (simp add: spliceDelete_def)
  next
    case False
    with Cons.prems have xin: "x \<in> set ys" by simp
    from indexOf_in [OF xin] have b: "0 \<le> indexOf ys x" "indexOf ys x < int (length ys)" by auto
    have ih: "spliceDelete (indexOf ys x) ys = remove1 x ys" using Cons.IH xin by simp
    have n: "nat (indexOf ys x + 1) = Suc (nat (indexOf ys x))" using b by simp
    show ?thesis using False b ih n
      by (simp add: spliceDelete_def Let_def min_def)
  qed
qed

lemma removeLoop_filter_gen:
  "\<forall>x \<in> set pre. \<not> P x \<Longrightarrow>
     removeLoop (filter P xs) (pre @ xs) = pre @ filter (\<lambda>x. \<not> P x) xs"
proof (induction xs arbitrary: pre)
  case Nil
  show ?case by simp
next
  case (Cons x xs)
  show ?case
  proof (cases "P x")
    case True
    with Cons.prems have "x \<notin> set pre" by auto
    then have "remove1 x (pre @ x # xs) = pre @ xs" by (simp add: remove1_append)
    moreover have "spliceDelete (indexOf (pre @ x # xs) x) (pre @ x # xs) = remove1 x (pre @ x # xs)"
      by (rule spliceDelete_indexOf) simp
    ultimately show ?thesis using True Cons.IH [OF Cons.prems] by simp
  next
    case False
    with Cons.prems have "\<forall>y \<in> set (pre @ [x]). \<not> P y" by simp
    from Cons.IH [OF this] show ?thesis using False by simp
  qed
qed

lemma removeLoop_filter: "removeLoop (filter P xs) xs = filter (\<lambda>x. \<not> P x) xs"
  using removeLoop_filter_gen [of "[]" P xs] by simp

subsection \<open>The three loops together\<close>

text \<open>
  The array after \<open>_diffASTArrayTypes\<close> is the array after the insertions, without the
  entries whose name does not occur in the incoming array.
\<close>

lemma diffASTArrayTypes_eq:
  "diffASTArrayTypes h cur new =
     (fst (mergeLoop cur new 0 (h, [])),
      filter (\<lambda>r. name (h r) \<in> set (names h new)) (insertLoop (unmatched h cur new 0) 0 cur))"
proof -
  obtain h1 ins where ml: "mergeLoop cur new 0 (h, []) = (h1, ins)" by (cases "mergeLoop cur new 0 (h, [])")
  have ins: "ins = unmatched h cur new 0" using mergeLoop_snd [of cur new 0 h "[]"] ml by simp
  have nm: "\<And>r. name (h1 r) = name (h r)" using mergeLoop_name [of cur new 0 h "[]"] ml by simp
  have P: "(\<lambda>old. find (\<lambda>n. isEqual (h1 old) (h1 n)) new = None) = (\<lambda>old. name (h old) \<notin> set (names h new))"
    by (simp add: find_name_None' nm names_cong [of h1 h, OF nm])
  have "diffASTArrayTypes h cur new =
      (h1, removeLoop (filter (\<lambda>old. name (h old) \<notin> set (names h new)) (insertLoop ins 0 cur))
             (insertLoop ins 0 cur))"
    unfolding diffASTArrayTypes_def ml by (simp only: P Let_def split_conv)
  then show ?thesis using ins ml by (simp only: removeLoop_filter fst_conv not_not)
qed

lemma diffArr_heap: "diffASTArrayTypes h cur new = (h', cur') \<Longrightarrow> h' = fst (mergeLoop cur new 0 (h, []))"
  by (simp add: diffASTArrayTypes_eq)

lemma diffArr_list:
  "diffASTArrayTypes h cur new = (h', cur') \<Longrightarrow>
     cur' = filter (\<lambda>r. name (h r) \<in> set (names h new)) (insertLoop (unmatched h cur new 0) 0 cur)"
  by (simp add: diffASTArrayTypes_eq)

lemma diffArr_name: "diffASTArrayTypes h cur new = (h', cur') \<Longrightarrow> name (h' r) = name (h r)"
  using diffArr_heap [of h cur new h' cur'] by (simp add: mergeLoop_name)

lemma diffArr_names: "diffASTArrayTypes h cur new = (h', cur') \<Longrightarrow> names h' rs = names h rs"
  by (rule names_cong) (rule diffArr_name)

lemma diffArr_set:
  assumes "diffASTArrayTypes h cur new = (h', cur')"
  shows "set cur' = {r \<in> set cur. name (h r) \<in> set (names h new)}
                  \<union> {n \<in> set new. name (h n) \<notin> set (names h cur)}"
proof -
  let ?U = "unmatched h cur new 0"
  let ?P = "\<lambda>r. name (h r) \<in> set (names h new)"
  have "cur' = filter ?P (insertLoop ?U 0 cur)" using assms by (rule diffArr_list)
  then have "set cur' = {r \<in> set (insertLoop ?U 0 cur). ?P r}" by (simp only: set_filter)
  also have "set (insertLoop ?U 0 cur) = {n \<in> set new. name (h n) \<notin> set (names h cur)} \<union> set cur"
    by (simp only: set_insertLoop set_unmatched)
  finally have eq: "set cur' = {r \<in> {n \<in> set new. name (h n) \<notin> set (names h cur)} \<union> set cur. ?P r}" .
  have "\<And>n. n \<in> set new \<Longrightarrow> ?P n" by (rule in_names)
  then show ?thesis unfolding eq by blast
qed

lemma diffArr_set_names:
  assumes "diffASTArrayTypes h cur new = (h', cur')"
  shows "set (names h' cur') = set (names h new)"
proof -
  have "set (names h cur') = set (names h new)"
  proof
    show "set (names h cur') \<subseteq> set (names h new)"
      using diffArr_set [OF assms] by (auto simp: names_def)
    show "set (names h new) \<subseteq> set (names h cur')"
    proof
      fix x assume "x \<in> set (names h new)"
      then obtain n where n: "n \<in> set new" "x = name (h n)" by (auto simp: names_def)
      show "x \<in> set (names h cur')"
      proof (cases "name (h n) \<in> set (names h cur)")
        case True
        then obtain r where "r \<in> set cur" "name (h r) = name (h n)" by (auto simp: names_def)
        then have "r \<in> set cur'" using diffArr_set [OF assms] n in_names [of n new h] by simp
        then show ?thesis using n \<open>name (h r) = name (h n)\<close> in_names [of r cur' h] by simp
      next
        case False
        then have "n \<in> set cur'" using diffArr_set [OF assms] n by simp
        then show ?thesis using n in_names [of n cur' h] by simp
      qed
    qed
  qed
  then show ?thesis by (simp add: diffArr_names [OF assms])
qed

lemma diffArr_kept_order:
  assumes "diffASTArrayTypes h cur new = (h', cur')"
  shows "filter (\<lambda>r. r \<in> set cur) cur' = filter (\<lambda>r. name (h r) \<in> set (names h new)) cur"
proof -
  let ?U = "unmatched h cur new 0"
  let ?P = "\<lambda>r. name (h r) \<in> set (names h new)"
  have notin: "\<forall>p \<in> set ?U. \<not> fst p \<in> set cur"
    using unmatched_fst [of _ h cur new 0] in_names [of _ cur h] by blast
  have "filter (\<lambda>r. r \<in> set cur) cur' = filter ?P (filter (\<lambda>r. r \<in> set cur) (insertLoop ?U 0 cur))"
    using diffArr_list [OF assms] by (simp add: conj_commute)
  also have "\<dots> = filter ?P (filter (\<lambda>r. r \<in> set cur) cur)"
    by (simp only: filter_insertLoop [of ?U "\<lambda>r. r \<in> set cur", OF notin])
  also have "\<dots> = filter ?P cur" by simp
  finally show ?thesis .
qed

lemma diffArr_distinct:
  assumes "diffASTArrayTypes h cur new = (h', cur')"
    and "distinct (names h cur)" and "distinct (names h new)"
  shows "distinct (names h' cur')"
proof -
  let ?f = "\<lambda>r. name (h r)"
  let ?U = "unmatched h cur new 0"
  let ?L = "insertLoop ?U 0 cur"
  let ?N = "filter (\<lambda>n. ?f n \<notin> set (names h cur)) new"
  have "mset (map ?f ?L) = mset (map ?f (?N @ cur))"
    by (simp add: mset_insertLoop map_fst_unmatched)
  moreover have "distinct (map ?f (?N @ cur))"
  proof -
    have "distinct (map ?f ?N)" using assms(3) by (simp add: names_def distinct_map_filter)
    moreover have "distinct (map ?f cur)" using assms(2) by (simp add: names_def)
    moreover have "set (map ?f ?N) \<inter> set (map ?f cur) = {}" by (auto simp: names_def)
    ultimately show ?thesis by simp
  qed
  ultimately have "distinct (map ?f ?L)" by (metis mset_eq_imp_distinct_iff)
  then have "distinct (map ?f (filter (\<lambda>r. ?f r \<in> set (names h new)) ?L))"
    by (rule distinct_map_filter)
  then have "distinct (names h cur')" using diffArr_list [OF assms(1)] by (simp add: names_def)
  then show ?thesis by (simp add: diffArr_names [OF assms(1)])
qed

lemma diffArr_kept_contents:
  assumes d: "diffASTArrayTypes h cur new = (h', cur')"
    and dc: "distinct (names h cur)" and dn: "distinct (names h new)"
    and r: "r \<in> set cur" and n: "n \<in> set new" and eq: "name (h r) = name (h n)"
  shows "h' r = h n"
proof -
  have "find (\<lambda>old. isEqual (h old) (h n)) cur = Some r"
    using dc r eq by (rule find_unique)
  then have "fst (mergeLoop cur new 0 (h, [])) r = h n"
    using dn n by (simp add: mergeLoop_target)
  then show ?thesis using diffArr_heap [OF d] by simp
qed

lemma diffArr_inserted_contents:
  assumes d: "diffASTArrayTypes h cur new = (h', cur')" and r: "r \<notin> set cur"
  shows "h' r = h r"
proof -
  have "fst (mergeLoop cur new 0 (h, [])) r = h r"
  proof (rule mergeLoop_other)
    fix n assume "n \<in> set new"
    show "find (\<lambda>old. isEqual (h old) (h n)) cur \<noteq> Some r"
      using r find_name_Some [of h "h n" cur r] by auto
  qed
  then show ?thesis using diffArr_heap [OF d] by simp
qed

lemma diffArr_contents:
  assumes d: "diffASTArrayTypes h cur new = (h', cur')"
    and dc: "distinct (names h cur)" and dn: "distinct (names h new)"
  shows "h' ` set cur' = h ` set new"
proof
  show "h' ` set cur' \<subseteq> h ` set new"
  proof
    fix v assume "v \<in> h' ` set cur'"
    then obtain r where r: "r \<in> set cur'" "v = h' r" by auto
    show "v \<in> h ` set new"
    proof (cases "r \<in> set cur")
      case True
      then have "name (h r) \<in> set (names h new)" using r diffArr_set [OF d] in_names [of r cur h] by auto
      then obtain n where n: "n \<in> set new" "name (h r) = name (h n)" by (auto simp: names_def)
      then have "h' r = h n" using diffArr_kept_contents [OF d dc dn True] by simp
      then show ?thesis using r n by simp
    next
      case False
      then have "r \<in> set new" using r diffArr_set [OF d] by auto
      moreover have "h' r = h r" using d False by (rule diffArr_inserted_contents)
      ultimately show ?thesis using r by simp
    qed
  qed
  show "h ` set new \<subseteq> h' ` set cur'"
  proof
    fix v assume "v \<in> h ` set new"
    then obtain n where n: "n \<in> set new" "v = h n" by auto
    show "v \<in> h' ` set cur'"
    proof (cases "name (h n) \<in> set (names h cur)")
      case True
      then obtain r where rr: "r \<in> set cur" "name (h r) = name (h n)" by (auto simp: names_def)
      then have "r \<in> set cur'" using diffArr_set [OF d] n in_names [of n new h] by simp
      moreover have "h' r = h n" using d dc dn rr(1) n(1) rr(2) by (rule diffArr_kept_contents)
      ultimately show ?thesis using n by force
    next
      case False
      then have "n \<in> set cur'" using diffArr_set [OF d] n by simp
      moreover have "n \<notin> set cur" using False in_names [of n cur h] by auto
      then have "h' n = h n" using d by (simp add: diffArr_inserted_contents)
      ultimately show ?thesis using n by force
    qed
  qed
qed

lemma diffArr_in_place:
  assumes dc: "distinct (names h cur)" and dn: "distinct (names h new)"
    and d: "diffASTArrayTypes h cur new = (h', cur')"
  shows "reconciledInPlace h cur new h' cur'"
proof -
  have a: "\<forall>r \<in> set cur. name (h r) \<in> set (names h new) \<longrightarrow>
          r \<in> set cur' \<and> (\<exists>n \<in> set new. name (h n) = name (h r) \<and> h' r = h n)"
  proof (intro ballI impI)
    fix r assume r: "r \<in> set cur" and nm: "name (h r) \<in> set (names h new)"
    then obtain n where n: "n \<in> set new" "name (h r) = name (h n)" by (auto simp: names_def)
    have "h' r = h n" using d dc dn r n by (rule diffArr_kept_contents)
    moreover have "r \<in> set cur'" using diffArr_set [OF d] r nm by simp
    ultimately show "r \<in> set cur' \<and> (\<exists>n \<in> set new. name (h n) = name (h r) \<and> h' r = h n)"
      using n by auto
  qed
  have b: "\<forall>r \<in> set cur. r \<notin> set cur' \<longrightarrow> name (h r) \<notin> set (names h new)"
    using diffArr_set [OF d] by auto
  have c: "\<forall>r \<in> set cur'. r \<notin> set cur \<longrightarrow>
          r \<in> set new \<and> name (h r) \<notin> set (names h cur) \<and> h' r = h r"
    using diffArr_set [OF d] diffArr_inserted_contents [OF d] by auto
  show ?thesis unfolding reconciledInPlace_def
    using a b c diffArr_kept_order [OF d] by blast
qed

lemma diffArr_copy:
  assumes dc: "distinct (names h cur)" and cp: "map h new = map h cur"
  shows "diffASTArrayTypes h cur new = (h, cur)"
proof -
  have nn: "names h new = names h cur"
  proof -
    have "map name (map h new) = map name (map h cur)" using cp by simp
    then show ?thesis by (simp add: names_def comp_def)
  qed
  have len: "length new = length cur" using cp by (metis length_map)
  have heap: "fst (mergeLoop cur new 0 (h, [])) = h"
  proof (rule mergeLoop_unchanged)
    fix n c assume n: "n \<in> set new" and f: "find (\<lambda>old. isEqual (h old) (h n)) cur = Some c"
    from n obtain j where j: "j < length new" "new ! j = n" by (auto simp: in_set_conv_nth)
    have "map h new ! j = map h cur ! j" using cp by simp
    then have hj: "h n = h (cur ! j)" using j len by simp
    have "find (\<lambda>old. isEqual (h old) (h n)) cur = Some (cur ! j)"
      using dc by (rule find_unique) (use j len hj in simp_all)
    then show "h c = h n" using f hj by simp
  qed
  have "unmatched h cur new 0 = []"
  proof -
    have "map fst (unmatched h cur new 0) = []"
      unfolding map_fst_unmatched nn [symmetric] by (simp add: in_names)
    then show ?thesis by simp
  qed
  then have "snd (diffASTArrayTypes h cur new) = filter (\<lambda>r. name (h r) \<in> set (names h cur)) cur"
    by (simp add: diffASTArrayTypes_eq nn)
  also have "\<dots> = cur" by (simp add: in_names)
  finally show ?thesis using heap by (simp add: diffASTArrayTypes_eq prod_eq_iff)
qed

lemma diffArr_sameFields:
  assumes "sameFields h cur new"
  shows "fst (diffASTArrayTypes h cur new) = h"
proof -
  have "fst (mergeLoop cur new 0 (h, [])) = h"
  proof (rule mergeLoop_unchanged)
    fix n c assume n: "n \<in> set new" and f: "find (\<lambda>old. isEqual (h old) (h n)) cur = Some c"
    from f have "c \<in> set cur" "name (h c) = name (h n)" by (simp_all add: find_name_Some)
    then show "h c = h n" using assms n unfolding sameFields_def by metis
  qed
  then show ?thesis by (simp add: diffASTArrayTypes_eq)
qed

lemma diffArr_same_keys:
  assumes "names h new = names h cur"
  shows "snd (diffASTArrayTypes h cur new) = cur"
proof -
  have "unmatched h cur new 0 = []" by (rule unmatched_none) (simp add: assms)
  then have "snd (diffASTArrayTypes h cur new) = filter (\<lambda>r. name (h r) \<in> set (names h cur)) cur"
    by (simp add: diffASTArrayTypes_eq assms)
  also have "\<dots> = cur" by (simp add: in_names)
  finally show ?thesis .
qed

lemma diffArr_added_key:
  assumes a: "addedKey h cur new k"
  shows "snd (diffASTArrayTypes h cur new) = take k cur @ new ! k # drop k cur"
proof -
  from a have k: "k < length new"
    and nn: "names h (take k new @ drop (Suc k) new) = names h cur"
    and fresh: "name (h (new ! k)) \<notin> set (names h cur)" by (simp_all add: addedKey_def)
  let ?pre = "take k new" and ?n = "new ! k" and ?post = "drop (Suc k) new"
  have new: "new = ?pre @ ?n # ?post" using k by (rule id_take_nth_drop)
  have len: "length ?pre = k" using k by simp
  have "set (names h ?pre) \<union> set (names h ?post) = set (names h cur)"
    using nn by (metis names_append set_append)
  then have np: "set (names h ?pre) \<subseteq> set (names h cur)"
    and npo: "set (names h ?post) \<subseteq> set (names h cur)" by auto
  have "unmatched h cur (?pre @ ?n # ?post) 0 = [(?n, k)]"
    using fresh k by (simp add: unmatched_append unmatched_none [OF np] unmatched_none [OF npo])
  then have un: "unmatched h cur new 0 = [(?n, k)]" using new by simp
  let ?L = "take k cur @ ?n # drop k cur"
  have ins: "insertLoop (unmatched h cur new 0) 0 cur = ?L"
    by (simp add: un spliceInsert_def)
  have "names h new = names h ?pre @ name (h ?n) # names h ?post"
    using new by (metis names_append names_Cons)
  then have sn: "set (names h new) = insert (name (h ?n)) (set (names h cur))"
    using \<open>set (names h ?pre) \<union> set (names h ?post) = set (names h cur)\<close> by auto
  have "\<forall>r \<in> set ?L. name (h r) \<in> set (names h new)"
  proof
    fix r assume "r \<in> set ?L"
    then have "r = ?n \<or> r \<in> set cur" by (auto dest: in_set_takeD in_set_dropD)
    then show "name (h r) \<in> set (names h new)" using sn in_names [of r cur h] by auto
  qed
  then have "filter (\<lambda>r. name (h r) \<in> set (names h new)) ?L = ?L" by (rule filter_True)
  then show ?thesis using ins by (simp only: diffASTArrayTypes_eq snd_conv)
qed

lemma diffArr_removed_key:
  assumes dc: "distinct (names h cur)" and r: "removedKey h cur new k"
  shows "snd (diffASTArrayTypes h cur new) = take k cur @ drop (Suc k) cur"
proof -
  from r have k: "k < length cur"
    and nn: "names h new = names h (take k cur @ drop (Suc k) cur)" by (simp_all add: removedKey_def)
  let ?pre = "take k cur" and ?c = "cur ! k" and ?post = "drop (Suc k) cur"
  have cur: "cur = ?pre @ ?c # ?post" using k by (rule id_take_nth_drop)
  have nc: "names h cur = names h ?pre @ name (h ?c) # names h ?post"
    using cur by (metis names_append names_Cons)
  have "set (names h new) \<subseteq> set (names h cur)"
    unfolding nn names_append using nc by auto
  then have un: "unmatched h cur new 0 = []" by (rule unmatched_none)
  have cnot: "name (h ?c) \<notin> set (names h (?pre @ ?post))"
    using dc unfolding nc names_append by auto
  have keep: "\<And>r. r \<in> set (?pre @ ?post) \<Longrightarrow> name (h r) \<in> set (names h (?pre @ ?post))"
    by (rule in_names)
  have "filter (\<lambda>r. name (h r) \<in> set (names h (?pre @ ?post))) (?pre @ ?c # ?post) = ?pre @ ?post"
    using cnot keep by (simp add: filter_id_conv)
  then have "filter (\<lambda>r. name (h r) \<in> set (names h new)) cur = ?pre @ ?post"
    unfolding nn using cur by simp
  then show ?thesis using un by (simp add: diffASTArrayTypes_eq)
qed

lemma diffArr_last_wins:
  assumes new: "new = ns @ [n]" and fresh: "n \<notin> set cur"
    and f: "find (\<lambda>old. isEqual (h old) (h n)) cur = Some c"
  shows "fst (diffASTArrayTypes h cur new) c = h n"
proof -
  obtain h1 ins where m: "mergeLoop cur ns 0 (h, []) = (h1, ins)"
    by (cases "mergeLoop cur ns 0 (h, [])")
  have nm: "\<And>r. name (h1 r) = name (h r)" using mergeLoop_name [of cur ns 0 h "[]"] m by simp
  have "fst (mergeLoop cur ns 0 (h, [])) n = h n"
  proof (rule mergeLoop_other)
    fix k assume "k \<in> set ns"
    show "find (\<lambda>old. isEqual (h old) (h k)) cur \<noteq> Some n"
      using fresh find_name_Some [of h "h k" cur n] by auto
  qed
  then have h1n: "h1 n = h n" using m by simp
  have "find (\<lambda>old. isEqual (h1 old) (h1 n)) cur = Some c"
    using f by (simp add: find_isEqual_cong [of h1 h, OF nm])
  then have "fst (mergeLoop cur new 0 (h, [])) c = h1 n"
    by (simp add: new mergeLoop_append m merge_target)
  then show ?thesis using h1n by (simp add: diffASTArrayTypes_eq)
qed

lemma last_filter_split:
  "filter P xs \<noteq> [] \<Longrightarrow>
     \<exists>pre post. xs = pre @ last (filter P xs) # post \<and> (\<forall>x \<in> set post. \<not> P x)
        \<and> P (last (filter P xs))"
proof (induction xs rule: rev_induct)
  case Nil
  then show ?case by simp
next
  case (snoc x xs)
  show ?case
  proof (cases "P x")
    case True
    then have "last (filter P (xs @ [x])) = x" by simp
    then show ?thesis using True by (intro exI [of _ xs] exI [of _ "[]"]) simp
  next
    case False
    then have f: "filter P (xs @ [x]) = filter P xs" by simp
    then have "filter P xs \<noteq> []" using snoc.prems by simp
    from snoc.IH [OF this] obtain pre post where
      d: "xs = pre @ last (filter P xs) # post" "\<forall>y \<in> set post. \<not> P y" "P (last (filter P xs))"
      by blast
    have "xs @ [x] = pre @ last (filter P xs) # (post @ [x])" using d(1) by simp
    moreover have "\<forall>y \<in> set (post @ [x]). \<not> P y" using d(2) False by simp
    ultimately show ?thesis unfolding f using d(3) by blast
  qed
qed

lemma mergeLoop_last_of_key:
  assumes new: "new = pre @ l # post"
    and post: "\<forall>x \<in> set post. name (h x) \<noteq> name (h l)"
    and fresh: "l \<notin> set cur"
    and f: "find (\<lambda>old. isEqual (h old) (h l)) cur = Some c"
  shows "fst (mergeLoop cur new 0 (h, [])) c = h l"
proof -
  obtain h2 ins2 where m: "mergeLoop cur (pre @ [l]) 0 (h, []) = (h2, ins2)"
    by (cases "mergeLoop cur (pre @ [l]) 0 (h, [])")
  have nm: "\<And>r. name (h2 r) = name (h r)"
    using mergeLoop_name [of cur "pre @ [l]" 0 h "[]"] m by simp
  have "fst (diffASTArrayTypes h cur (pre @ [l])) c = h l"
    using refl fresh f by (rule diffArr_last_wins)
  then have h2c: "h2 c = h l" using m by (simp add: diffASTArrayTypes_eq)
  from f have cn: "name (h c) = name (h l)" by (simp add: find_name_Some)
  have "fst (mergeLoop cur post (length (pre @ [l])) (h2, ins2)) c = h2 c"
  proof (rule mergeLoop_other)
    fix k assume k: "k \<in> set post"
    show "find (\<lambda>old. isEqual (h2 old) (h2 k)) cur \<noteq> Some c"
    proof
      assume "find (\<lambda>old. isEqual (h2 old) (h2 k)) cur = Some c"
      then have "find (\<lambda>old. isEqual (h old) (h k)) cur = Some c"
        by (simp add: find_isEqual_cong [of h2 h, OF nm])
      then have "name (h c) = name (h k)" by (simp add: find_name_Some)
      then show False using post k cn by auto
    qed
  qed
  moreover have "mergeLoop cur new 0 (h, []) = mergeLoop cur post (length (pre @ [l])) (h2, ins2)"
  proof -
    have "new = (pre @ [l]) @ post" using new by simp
    then show ?thesis using mergeLoop_append [of cur "pre @ [l]" post 0 "(h, [])"] m by simp
  qed
  ultimately show ?thesis using h2c by simp
qed

lemma diffArr_duplicates:
  assumes disj: "set new \<inter> set cur = {}" and d: "diffASTArrayTypes h cur new = (h', cur')"
  shows "duplicatesMerged h cur new h' cur'"
  unfolding duplicatesMerged_def
proof
  fix n assume n: "n \<in> set new"
  show "case find (\<lambda>old. isEqual (h old) (h n)) cur of
           None \<Rightarrow> n \<in> set cur' \<and> h' n = h n
         | Some c \<Rightarrow> c \<in> set cur' \<and> n \<notin> set cur'
                      \<and> h' c = h (lastOfKey h new (name (h n)))"
  proof (cases "find (\<lambda>old. isEqual (h old) (h n)) cur")
    case None
    then have nn: "name (h n) \<notin> set (names h cur)" by (simp add: find_name_None)
    then have "n \<in> set cur'" using diffArr_set [OF d] n by simp
    moreover have "n \<notin> set cur" using disj n by auto
    then have "h' n = h n" using d by (simp add: diffArr_inserted_contents)
    ultimately show ?thesis using None by simp
  next
    case (Some c)
    then have c: "c \<in> set cur" "name (h c) = name (h n)" by (simp_all add: find_name_Some)
    have "name (h c) \<in> set (names h new)" using c(2) in_names [OF n, of h] by simp
    then have incur': "c \<in> set cur'" using diffArr_set [OF d] c(1) by simp
    have "n \<notin> set cur" using disj n by auto
    moreover have "name (h n) \<in> set (names h cur)" using c in_names [of c cur h] by simp
    ultimately have nout: "n \<notin> set cur'" using diffArr_set [OF d] by simp
    let ?P = "\<lambda>m. name (h m) = name (h n)"
    let ?l = "lastOfKey h new (name (h n))"
    have "filter ?P new \<noteq> []" using n by (auto simp: filter_empty_conv)
    from last_filter_split [OF this] obtain pre post where
      sp: "new = pre @ ?l # post" "\<forall>x \<in> set post. \<not> ?P x" "?P ?l"
      unfolding lastOfKey_def by blast
    have "?l \<in> set new" using sp(1) by (metis in_set_conv_decomp)
    then have lf: "?l \<notin> set cur" using disj by auto
    have "find (\<lambda>old. isEqual (h old) (h ?l)) cur = Some c"
      using Some sp(3) by (simp add: isEqual_def)
    moreover have "\<forall>x \<in> set post. name (h x) \<noteq> name (h ?l)" using sp(2,3) by simp
    ultimately have "fst (mergeLoop cur new 0 (h, [])) c = h ?l"
      using sp(1) lf by (intro mergeLoop_last_of_key [of new pre ?l post h cur c]) auto
    then have "h' c = h ?l" using diffArr_heap [OF d] by simp
    then show ?thesis using Some incur' nout by simp
  qed
qed

subsection \<open>Both sequences\<close>

lemma diffAST_split:
  "diffAST st p q = (st', p') \<Longrightarrow>
     diffASTArrayTypes (fst st) (globals p) (globals q) = (fst st', globals p') \<and>
     diffASTArrayTypes (snd st) (components p) (components q) = (snd st', components p')"
  by (auto simp: diffAST_def Let_def split: prod.splits)

lemma diffAST_fst_snd:
  "fst (diffAST st p q) = (fst (diffASTArrayTypes (fst st) (globals p) (globals q)),
                           fst (diffASTArrayTypes (snd st) (components p) (components q)))"
  "snd (diffAST st p q) = \<lparr>globals = snd (diffASTArrayTypes (fst st) (globals p) (globals q)),
                           components = snd (diffASTArrayTypes (snd st) (components p) (components q))\<rparr>"
  by (simp_all add: diffAST_def Let_def split: prod.splits)

lemma diffAST_names:
  assumes d: "diffAST st p q = (st', p')"
  shows "names (fst st') rs = names (fst st) rs" and "names (snd st') rs = names (snd st) rs"
proof -
  from diffAST_split [OF d]
  have g: "diffASTArrayTypes (fst st) (globals p) (globals q) = (fst st', globals p')"
    and c: "diffASTArrayTypes (snd st) (components p) (components q) = (snd st', components p')"
    by simp_all
  show "names (fst st') rs = names (fst st) rs" using g by (rule diffArr_names)
  show "names (snd st') rs = names (snd st) rs" using c by (rule diffArr_names)
qed

lemma uniqueKeys_cong:
  "names (fst st') (globals p) = names (fst st) (globals p) \<Longrightarrow>
   names (snd st') (components p) = names (snd st) (components p) \<Longrightarrow>
   uniqueKeys st' p = uniqueKeys st p"
  by (simp add: uniqueKeys_def)

lemma diffAST_uniqueKeys:
  assumes d: "diffAST st p q = (st', p')" and up: "uniqueKeys st p" and uq: "uniqueKeys st q"
  shows "uniqueKeys st' p'"
proof -
  from diffAST_split [OF d]
  have g: "diffASTArrayTypes (fst st) (globals p) (globals q) = (fst st', globals p')"
    and c: "diffASTArrayTypes (snd st) (components p) (components q) = (snd st', components p')"
    by simp_all
  have "distinct (names (fst st') (globals p'))"
    using g up uq by (simp add: uniqueKeys_def diffArr_distinct)
  moreover have "distinct (names (snd st') (components p'))"
    using c up uq by (simp add: uniqueKeys_def diffArr_distinct)
  ultimately show ?thesis by (simp add: uniqueKeys_def)
qed

lemma diffAST_contents:
  assumes d: "diffAST st p q = (st', p')" and up: "uniqueKeys st p" and uq: "uniqueKeys st q"
  shows "fst st' ` set (globals p') = fst st ` set (globals q)"
    and "snd st' ` set (components p') = snd st ` set (components q)"
    and "uniqueKeys st' p'"
proof -
  from diffAST_split [OF d]
  have g: "diffASTArrayTypes (fst st) (globals p) (globals q) = (fst st', globals p')"
    and c: "diffASTArrayTypes (snd st) (components p) (components q) = (snd st', components p')"
    by simp_all
  show "fst st' ` set (globals p') = fst st ` set (globals q)"
    using g up uq by (simp add: uniqueKeys_def diffArr_contents)
  show "snd st' ` set (components p') = snd st ` set (components q)"
    using c up uq by (simp add: uniqueKeys_def diffArr_contents)
  show "uniqueKeys st' p'" using d up uq by (rule diffAST_uniqueKeys)
qed

section \<open>Lemmas about the synchronizer\<close>

subsection \<open>New objects\<close>

text \<open>
  New objects have the given contents and leave the objects that existed as they were.
\<close>

lemma allocNodes_frame: "r < n \<Longrightarrow> fst (allocNodes vs h n) r = h r"
proof (induction vs arbitrary: h n)
  case Nil
  show ?case by simp
next
  case (Cons v vs)
  obtain h' n' rs where a: "allocNodes vs (h(n := v)) (Suc n) = (h', n', rs)"
    by (cases "allocNodes vs (h(n := v)) (Suc n)")
  have "fst (allocNodes vs (h(n := v)) (Suc n)) r = (h(n := v)) r"
    by (rule Cons.IH) (use Cons.prems in simp)
  then show ?case using a Cons.prems by simp
qed

lemma allocNodes_next: "fst (snd (allocNodes vs h n)) = n + length vs"
proof (induction vs arbitrary: h n)
  case Nil
  show ?case by simp
next
  case (Cons v vs)
  obtain h' n' rs where a: "allocNodes vs (h(n := v)) (Suc n) = (h', n', rs)"
    by (cases "allocNodes vs (h(n := v)) (Suc n)")
  have "fst (snd (allocNodes vs (h(n := v)) (Suc n))) = Suc n + length vs" by (rule Cons.IH)
  then show ?case using a by simp
qed

lemma allocNodes_map: "map (fst (allocNodes vs h n)) (snd (snd (allocNodes vs h n))) = vs"
proof (induction vs arbitrary: h n)
  case Nil
  show ?case by simp
next
  case (Cons v vs)
  obtain h' n' rs where a: "allocNodes vs (h(n := v)) (Suc n) = (h', n', rs)"
    by (cases "allocNodes vs (h(n := v)) (Suc n)")
  have "fst (allocNodes vs (h(n := v)) (Suc n)) n = (h(n := v)) n"
    by (rule allocNodes_frame) simp
  then have "h' n = v" using a by simp
  moreover have "map (fst (allocNodes vs (h(n := v)) (Suc n)))
       (snd (snd (allocNodes vs (h(n := v)) (Suc n)))) = vs" by (rule Cons.IH)
  then have "map h' rs = vs" using a by simp
  ultimately show ?case using a by simp
qed

lemma allocNodes_refs:
  "r \<in> set (snd (snd (allocNodes vs h n))) \<Longrightarrow> n \<le> r \<and> r < n + length vs"
proof (induction vs arbitrary: h n)
  case Nil
  then show ?case by simp
next
  case (Cons v vs)
  obtain h' n' rs where a: "allocNodes vs (h(n := v)) (Suc n) = (h', n', rs)"
    by (cases "allocNodes vs (h(n := v)) (Suc n)")
  from Cons.prems a have "r = n \<or> r \<in> set rs" by simp
  then show ?case
  proof
    assume "r = n"
    then show ?thesis by simp
  next
    assume "r \<in> set rs"
    then have "r \<in> set (snd (snd (allocNodes vs (h(n := v)) (Suc n))))" using a by simp
    then have "Suc n \<le> r \<and> r < Suc n + length vs" by (rule Cons.IH)
    then show ?thesis by simp
  qed
qed

lemma allocProgram_spec:
  assumes "allocProgram (gs, cs) st n = (st1, n1, p)"
  shows "map (fst st1) (globals p) = gs" and "map (snd st1) (components p) = cs"
    and "\<And>r. r < n \<Longrightarrow> fst st1 r = fst st r" and "\<And>r. r < n \<Longrightarrow> snd st1 r = snd st r"
    and "n \<le> n1"
proof -
  obtain hg k grs where g: "allocNodes gs (fst st) n = (hg, k, grs)"
    by (cases "allocNodes gs (fst st) n")
  obtain hc k' crs where c: "allocNodes cs (snd st) k = (hc, k', crs)"
    by (cases "allocNodes cs (snd st) k")
  have eq: "st1 = (hg, hc)" "n1 = k'" "p = \<lparr>globals = grs, components = crs\<rparr>"
    using assms g c by (simp_all add: allocProgram_def)
  have k: "k = n + length gs" using allocNodes_next [of gs "fst st" n] g by simp
  have k': "k' = k + length cs" using allocNodes_next [of cs "snd st" k] c by simp
  show "map (fst st1) (globals p) = gs" using allocNodes_map [of gs "fst st" n] g eq by simp
  show "map (snd st1) (components p) = cs" using allocNodes_map [of cs "snd st" k] c eq by simp
  show "\<And>r. r < n \<Longrightarrow> fst st1 r = fst st r" using allocNodes_frame [of _ n gs "fst st"] g eq by simp
  show "\<And>r. r < n \<Longrightarrow> snd st1 r = snd st r"
    using allocNodes_frame [of _ k cs "snd st"] c eq k by simp
  show "n \<le> n1" using eq k k' by simp
qed

lemma allocProgram_refs:
  assumes "allocProgram (gs, cs) st n = (st1, n1, p)"
  shows "\<forall>r \<in> set (globals p) \<union> set (components p). n \<le> r \<and> r < n1"
proof -
  obtain hg k grs where g: "allocNodes gs (fst st) n = (hg, k, grs)"
    by (cases "allocNodes gs (fst st) n")
  obtain hc k' crs where c: "allocNodes cs (snd st) k = (hc, k', crs)"
    by (cases "allocNodes cs (snd st) k")
  have eq: "n1 = k'" "p = \<lparr>globals = grs, components = crs\<rparr>"
    using assms g c by (simp_all add: allocProgram_def)
  have k: "k = n + length gs" using allocNodes_next [of gs "fst st" n] g by simp
  have k': "k' = k + length cs" using allocNodes_next [of cs "snd st" k] c by simp
  have "\<And>r. r \<in> set grs \<Longrightarrow> n \<le> r \<and> r < n + length gs"
    using allocNodes_refs [of _ gs "fst st" n] g by simp
  moreover have "\<And>r. r \<in> set crs \<Longrightarrow> k \<le> r \<and> r < k + length cs"
    using allocNodes_refs [of _ cs "snd st" k] c by simp
  ultimately show ?thesis using eq k k' by fastforce
qed

lemma allocated_mono: "allocated n p \<Longrightarrow> n \<le> m \<Longrightarrow> allocated m p"
  unfolding allocated_def by (meson less_le_trans)

lemma uniqueKeys_frame:
  assumes "allocated n q" and "\<And>r. r < n \<Longrightarrow> fst st1 r = fst st r"
    and "\<And>r. r < n \<Longrightarrow> snd st1 r = snd st r"
  shows "uniqueKeys st1 q = uniqueKeys st q"
proof -
  have "names (fst st1) (globals q) = names (fst st) (globals q)"
    by (rule names_frame) (use assms(1,2) in \<open>simp add: allocated_def\<close>)
  moreover have "names (snd st1) (components q) = names (snd st) (components q)"
    by (rule names_frame) (use assms(1,3) in \<open>simp add: allocated_def\<close>)
  ultimately show ?thesis by (rule uniqueKeys_cong)
qed

lemma diffAST_allocated:
  assumes d: "diffAST st p q = (st', p')" and "allocated n p" and "allocated n q"
  shows "allocated n p'"
proof -
  from diffAST_split [OF d]
  have g: "diffASTArrayTypes (fst st) (globals p) (globals q) = (fst st', globals p')"
    and c: "diffASTArrayTypes (snd st) (components p) (components q) = (snd st', components p')"
    by simp_all
  have "set (globals p') \<subseteq> set (globals p) \<union> set (globals q)"
    using diffArr_set [OF g] by auto
  moreover have "set (components p') \<subseteq> set (components p) \<union> set (components q)"
    using diffArr_set [OF c] by auto
  ultimately show ?thesis using assms(2,3) unfolding allocated_def by blast
qed

subsection \<open>The steps of the editor\<close>

lemma userEdit_idle:
  "\<not> isSynchingFromExternal s \<Longrightarrow>
     userEdit text s = s\<lparr>doc := text, isTyping := True, currentCodeString := text,
        statuses := statuses s @ [Parsing], pendingSync := Some text\<rparr>"
  by (simp add: userEdit_def updateListener_def Let_def)

lemma externalAddComponent_typing:
  "isTyping s \<Longrightarrow>
     externalAddComponent v s =
       s\<lparr>stores := (fst (stores s), (snd (stores s))(nextRef s := v)),
         nextRef := Suc (nextRef s),
         rekaProgram := (rekaProgram s)\<lparr>components := components (rekaProgram s) @ [nextRef s]\<rparr>\<rparr>"
  by (simp add: externalAddComponent_def notifyChange_def onExternalChange_def)

lemma wellFormed_add_component:
  assumes wf: "wellFormed s"
    and fresh: "name v \<notin> set (names (snd (stores s)) (components (rekaProgram s)))"
    and t: "stores t = (fst (stores s), (snd (stores s))(nextRef s := v))"
       "nextRef t = Suc (nextRef s)"
       "rekaProgram t = (rekaProgram s)\<lparr>components := components (rekaProgram s) @ [nextRef s]\<rparr>"
       "currentState t = currentState s"
  shows "wellFormed t"
proof -
  let ?n = "nextRef s"
  let ?hc = "snd (stores s)"
  have al: "allocated ?n (rekaProgram s)" "allocated ?n (currentState s)"
    using wf by (simp_all add: wellFormed_def)
  have fr: "\<And>rs. (\<forall>r \<in> set rs. r < ?n) \<Longrightarrow> names (?hc(?n := v)) rs = names ?hc rs"
    by (rule names_frame) auto
  have lc: "names (?hc(?n := v)) (components (rekaProgram s)) = names ?hc (components (rekaProgram s))"
    using al(1) by (intro fr) (simp add: allocated_def)
  have sc: "names (?hc(?n := v)) (components (currentState s)) = names ?hc (components (currentState s))"
    using al(2) by (intro fr) (simp add: allocated_def)
  have "names (?hc(?n := v)) (components (rekaProgram s) @ [?n])
      = names ?hc (components (rekaProgram s)) @ [name v]"
    by (simp add: names_append lc) (simp add: names_def)
  then have "uniqueKeys (stores t) (rekaProgram t)"
    using wf fresh by (simp add: t wellFormed_def uniqueKeys_def)
  moreover have "uniqueKeys (stores t) (currentState t)"
    using wf sc by (simp add: t wellFormed_def uniqueKeys_def)
  moreover have "allocated (nextRef t) (rekaProgram t)"
    using al(1) by (auto simp: t allocated_def less_Suc_eq)
  moreover have "allocated (nextRef t) (currentState t)"
    using al(2) by (auto simp: t allocated_def less_Suc_eq)
  ultimately show ?thesis by (simp add: wellFormed_def)
qed

lemma syncCodeToState_success:
  assumes idle: "\<not> isSynchingFromExternal s" and p: "parseProgram code = Inr parsed"
    and a: "allocProgram parsed (stores s) (nextRef s) = (st1, n1, newAST)"
    and d1: "diffAST st1 (currentState s) newAST = (st2, snapshot)"
    and d2: "diffAST st2 (rekaProgram s) snapshot = (st3, live)"
  shows "syncCodeToState parseProgram code s =
     s\<lparr>stores := st3, nextRef := n1, currentState := snapshot, rekaProgram := live,
       statuses := statuses s @ [Success], isSynchingFromCodeMirror := False, isTyping := False\<rparr>"
  using idle p a d1 d2
  by (simp add: syncCodeToState_def notifyChange_def onExternalChange_def Let_def)

lemma sync_result:
  assumes wf: "wellFormed s" and idle: "\<not> isSynchingFromExternal s"
    and p: "parseProgram code = Inr (gs, cs)"
    and dg: "distinct (map name gs)" and dc: "distinct (map name cs)"
    and s': "s' = syncCodeToState parseProgram code s"
  shows "fst (stores s') ` set (globals (rekaProgram s')) = set gs
       \<and> snd (stores s') ` set (components (rekaProgram s')) = set cs
       \<and> uniqueKeys (stores s') (rekaProgram s')
       \<and> statuses s' = statuses s @ [Success]"
proof -
  obtain st1 n1 newAST where a: "allocProgram (gs, cs) (stores s) (nextRef s) = (st1, n1, newAST)"
    by (cases "allocProgram (gs, cs) (stores s) (nextRef s)")
  obtain st2 snapshot where d1: "diffAST st1 (currentState s) newAST = (st2, snapshot)"
    by (cases "diffAST st1 (currentState s) newAST")
  obtain st3 live where d2: "diffAST st2 (rekaProgram s) snapshot = (st3, live)"
    by (cases "diffAST st2 (rekaProgram s) snapshot")
  note al = allocProgram_spec [OF a]
  have run: "s' = s\<lparr>stores := st3, nextRef := n1, currentState := snapshot, rekaProgram := live,
       statuses := statuses s @ [Success], isSynchingFromCodeMirror := False, isTyping := False\<rparr>"
    unfolding s' using idle p a d1 d2 by (rule syncCodeToState_success)
  have frame: "\<And>q. allocated (nextRef s) q \<Longrightarrow> uniqueKeys st1 q = uniqueKeys (stores s) q"
  proof -
    fix q assume q: "allocated (nextRef s) q"
    have "names (fst st1) (globals q) = names (fst (stores s)) (globals q)"
      by (rule names_frame) (use q al(3) in \<open>simp add: allocated_def\<close>)
    moreover have "names (snd st1) (components q) = names (snd (stores s)) (components q)"
      by (rule names_frame) (use q al(4) in \<open>simp add: allocated_def\<close>)
    ultimately show "uniqueKeys st1 q = uniqueKeys (stores s) q" by (rule uniqueKeys_cong)
  qed
  have u_snap: "uniqueKeys st1 (currentState s)" and u_live: "uniqueKeys st1 (rekaProgram s)"
    using wf frame by (simp_all add: wellFormed_def)
  have u_new: "uniqueKeys st1 newAST"
  proof -
    have "names (fst st1) (globals newAST) = map name gs" using al(1) by (rule names_contents)
    moreover have "names (snd st1) (components newAST) = map name cs"
      using al(2) by (rule names_contents)
    ultimately show ?thesis using dg dc by (simp add: uniqueKeys_def)
  qed
  note c1 = diffAST_contents [OF d1 u_snap u_new]
  have u_live2: "uniqueKeys st2 (rekaProgram s)"
    using u_live diffAST_names [OF d1] by (simp add: uniqueKeys_def)
  note c2 = diffAST_contents [OF d2 u_live2 c1(3)]
  have "fst st3 ` set (globals live) = set gs" using c2(1) c1(1) al(1) by (metis image_set)
  moreover have "snd st3 ` set (components live) = set cs" using c2(2) c1(2) al(2) by (metis image_set)
  ultimately show ?thesis using c2(3) by (simp add: run)
qed

lemma sync_keys:
  assumes idle: "\<not> isSynchingFromExternal s" and p: "parseProgram code = Inr (gs, cs)"
    and s': "s' = syncCodeToState parseProgram code s"
  shows "set (names (fst (stores s')) (globals (rekaProgram s'))) = set (map name gs)
       \<and> set (names (snd (stores s')) (components (rekaProgram s'))) = set (map name cs)
       \<and> statuses s' = statuses s @ [Success]"
proof -
  obtain st1 n1 newAST where a: "allocProgram (gs, cs) (stores s) (nextRef s) = (st1, n1, newAST)"
    by (cases "allocProgram (gs, cs) (stores s) (nextRef s)")
  obtain st2 snapshot where d1: "diffAST st1 (currentState s) newAST = (st2, snapshot)"
    by (cases "diffAST st1 (currentState s) newAST")
  obtain st3 live where d2: "diffAST st2 (rekaProgram s) snapshot = (st3, live)"
    by (cases "diffAST st2 (rekaProgram s) snapshot")
  note al = allocProgram_spec [OF a]
  have run: "s' = s\<lparr>stores := st3, nextRef := n1, currentState := snapshot, rekaProgram := live,
       statuses := statuses s @ [Success], isSynchingFromCodeMirror := False, isTyping := False\<rparr>"
    unfolding s' using idle p a d1 d2 by (rule syncCodeToState_success)
  from diffAST_split [OF d1]
  have g1: "diffASTArrayTypes (fst st1) (globals (currentState s)) (globals newAST)
              = (fst st2, globals snapshot)"
    and c1: "diffASTArrayTypes (snd st1) (components (currentState s)) (components newAST)
              = (snd st2, components snapshot)" by simp_all
  from diffAST_split [OF d2]
  have g2: "diffASTArrayTypes (fst st2) (globals (rekaProgram s)) (globals snapshot)
              = (fst st3, globals live)"
    and c2: "diffASTArrayTypes (snd st2) (components (rekaProgram s)) (components snapshot)
              = (snd st3, components live)" by simp_all
  have "set (names (fst st3) (globals live)) = set (names (fst st1) (globals newAST))"
    using diffArr_set_names [OF g2] diffArr_set_names [OF g1] by simp
  then have g: "set (names (fst st3) (globals live)) = set (map name gs)"
    using names_contents [OF al(1)] by simp
  have "set (names (snd st3) (components live)) = set (names (snd st1) (components newAST))"
    using diffArr_set_names [OF c2] diffArr_set_names [OF c1] by simp
  then have c: "set (names (snd st3) (components live)) = set (map name cs)"
    using names_contents [OF al(2)] by simp
  show ?thesis using g c by (simp add: run)
qed

lemma syncCodeToState_external_flags:
  "queuedExternalSync (syncCodeToState parseProgram code s) = queuedExternalSync s
   \<and> isSynchingFromExternal (syncCodeToState parseProgram code s) = isSynchingFromExternal s
   \<and> pendingSync (syncCodeToState parseProgram code s) = pendingSync s"
  by (simp add: syncCodeToState_def notifyChange_def onExternalChange_def Let_def
      split: sum.splits prod.splits)

lemma syncCodeToState_status:
  "\<not> isSynchingFromExternal s \<Longrightarrow>
     statuses (syncCodeToState parseProgram code s) =
       statuses s @ [case parseProgram code of Inl message \<Rightarrow> Error message | Inr parsed \<Rightarrow> Success]"
  by (simp add: syncCodeToState_def notifyChange_def onExternalChange_def Let_def
      split: sum.splits prod.splits)

lemma externalSync_ignores_listener:
  "isSynchingFromExternal s \<Longrightarrow>
     pendingSync (externalSync stringify s) = pendingSync s
   \<and> statuses (externalSync stringify s) = statuses s
   \<and> isTyping (externalSync stringify s) = isTyping s"
  by (simp add: externalSync_def dispatchReplaceAll_def updateListener_def Let_def
      split: prod.splits)

lemma externalSync_same:
  "stringify (contentsOf (stores s) (rekaProgram s)) = currentCodeString s \<Longrightarrow>
     externalSync stringify s = s\<lparr>isSynchingFromExternal := False\<rparr>"
  by (simp add: externalSync_def Let_def)

lemma externalSync_different:
  assumes ne: "stringify (contentsOf (stores s) (rekaProgram s)) \<noteq> currentCodeString s"
    and f: "fromJSON (stores s) (nextRef s) (rekaProgram s) = (st1, n1, copy)"
  shows "doc (externalSync stringify s) = stringify (contentsOf (stores s) (rekaProgram s))"
    and "currentCodeString (externalSync stringify s) = stringify (contentsOf (stores s) (rekaProgram s))"
    and "currentState (externalSync stringify s) = copy"
    and "stores (externalSync stringify s) = st1"
    and "rekaProgram (externalSync stringify s) = rekaProgram s"
    and "\<not> isSynchingFromExternal (externalSync stringify s)"
  using ne f
  by (simp_all add: externalSync_def dispatchReplaceAll_def updateListener_def Let_def)

lemma externalSync_queue:
  "queuedExternalSync (externalSync stringify s) = queuedExternalSync s"
  by (simp add: externalSync_def dispatchReplaceAll_def updateListener_def Let_def
      split: prod.splits)

lemma onExternalChange_idle:
  "\<not> isSynchingFromCodeMirror s \<Longrightarrow> \<not> isTyping s \<Longrightarrow> hasView s \<Longrightarrow>
   \<not> isSynchingFromExternal s \<Longrightarrow>
     runMicrotask stringify (onExternalChange s) =
       externalSync stringify (s\<lparr>isSynchingFromExternal := True, queuedExternalSync := False\<rparr>)"
  by (simp add: onExternalChange_def runMicrotask_def)

lemma onExternalChange_blocked:
  "isSynchingFromCodeMirror s \<or> isTyping s \<or> \<not> hasView s \<Longrightarrow> \<not> queuedExternalSync s \<Longrightarrow>
     runMicrotask stringify (onExternalChange s) = s"
  by (auto simp: onExternalChange_def runMicrotask_def)

lemma externalSync_effect:
  assumes inv: "doc s = currentCodeString s"
    and s': "s' = externalSync stringify s"
    and newCode: "newCode = stringify (contentsOf (stores s) (rekaProgram s))"
  shows "(newCode \<noteq> doc s \<longrightarrow>
            doc s' = newCode \<and> currentCodeString s' = newCode
          \<and> currentState s' = snd (snd (fromJSON (stores s) (nextRef s) (rekaProgram s)))
          \<and> contentsOf (stores s') (currentState s') = contentsOf (stores s) (rekaProgram s))
       \<and> (newCode = doc s \<longrightarrow>
            doc s' = doc s \<and> currentState s' = currentState s
          \<and> currentCodeString s' = currentCodeString s \<and> stores s' = stores s)
       \<and> rekaProgram s' = rekaProgram s \<and> \<not> isSynchingFromExternal s'"
proof (cases "newCode = doc s")
  case True
  then have "s' = s\<lparr>isSynchingFromExternal := False\<rparr>"
    unfolding s' using inv newCode by (simp add: externalSync_same)
  then show ?thesis using True by simp
next
  case False
  obtain st1 n1 copy where f: "fromJSON (stores s) (nextRef s) (rekaProgram s) = (st1, n1, copy)"
    by (cases "fromJSON (stores s) (nextRef s) (rekaProgram s)")
  have ne: "stringify (contentsOf (stores s) (rekaProgram s)) \<noteq> currentCodeString s"
    using False inv newCode by simp
  note e = externalSync_different [of stringify s st1 n1 copy, OF ne f]
  have a: "allocProgram (map (fst (stores s)) (globals (rekaProgram s)),
                map (snd (stores s)) (components (rekaProgram s))) (stores s) (nextRef s)
             = (st1, n1, copy)"
    using f by (simp add: fromJSON_def contentsOf_def)
  have "contentsOf st1 copy = contentsOf (stores s) (rekaProgram s)"
    using allocProgram_spec(1,2) [OF a] by (simp add: contentsOf_def)
  then show ?thesis using False e f by (simp add: s' newCode)
qed

text \<open>
  The cached code string is the document of the view: this holds when the editor is
  mounted and every step keeps it. A user edit is a task of its own, and the microtask
  of \<open>onExternalChange\<close> runs before the next task, so no user edit happens while
  \<open>isSynchingFromExternal\<close> is set.
\<close>

lemma cached_code_is_document:
  "doc (initEditor stringify st n p) = currentCodeString (initEditor stringify st n p)"
  "\<not> isSynchingFromExternal s \<Longrightarrow> doc (userEdit text s) = currentCodeString (userEdit text s)"
  "doc s = currentCodeString s \<Longrightarrow>
     doc (syncCodeToState parseProgram code s) = currentCodeString (syncCodeToState parseProgram code s)"
  "doc s = currentCodeString s \<Longrightarrow>
     doc (debounceFire parseProgram s) = currentCodeString (debounceFire parseProgram s)"
  "doc s = currentCodeString s \<Longrightarrow> doc (onExternalChange s) = currentCodeString (onExternalChange s)"
  "doc s = currentCodeString s \<Longrightarrow>
     doc (externalAddComponent v s) = currentCodeString (externalAddComponent v s)"
  "doc s = currentCodeString s \<Longrightarrow>
     doc (externalSync stringify s) = currentCodeString (externalSync stringify s)"
  "doc s = currentCodeString s \<Longrightarrow>
     doc (runMicrotask stringify s) = currentCodeString (runMicrotask stringify s)"
  by (simp_all add: initEditor_def userEdit_def updateListener_def syncCodeToState_def
      debounceFire_def onExternalChange_def notifyChange_def externalAddComponent_def
      externalSync_def dispatchReplaceAll_def runMicrotask_def Let_def
      split: prod.splits sum.splits option.splits)

subsection \<open>Well-formedness is kept\<close>

text \<open>
  The hypothesis of well-formedness holds when the editor is mounted on a program with
  unique keys, and every step keeps it, provided that the parser returns unique keys.
\<close>

lemma wellFormed_fromJSON:
  assumes u: "uniqueKeys st p" and al: "allocated n p" and f: "fromJSON st n p = (st1, n1, copy)"
  shows "uniqueKeys st1 p" and "uniqueKeys st1 copy" and "allocated n1 p" and "allocated n1 copy"
    and "\<And>q. allocated n q \<Longrightarrow> uniqueKeys st1 q = uniqueKeys st q" and "n \<le> n1"
proof -
  have a: "allocProgram (map (fst st) (globals p), map (snd st) (components p)) st n
             = (st1, n1, copy)"
    using f by (simp add: fromJSON_def contentsOf_def)
  note sp = allocProgram_spec [OF a]
  show fr: "\<And>q. allocated n q \<Longrightarrow> uniqueKeys st1 q = uniqueKeys st q"
  proof -
    fix q assume "allocated n q"
    then show "uniqueKeys st1 q = uniqueKeys st q" using sp(3) sp(4) by (rule uniqueKeys_frame)
  qed
  show "uniqueKeys st1 p" using fr [OF al] u by simp
  have "names (fst st1) (globals copy) = names (fst st) (globals p)"
    using names_contents [OF sp(1)] names_contents [OF refl, of "fst st" "globals p"] by simp
  moreover have "names (snd st1) (components copy) = names (snd st) (components p)"
    using names_contents [OF sp(2)] names_contents [OF refl, of "snd st" "components p"] by simp
  ultimately show "uniqueKeys st1 copy" using u by (simp add: uniqueKeys_def)
  show "n \<le> n1" by (rule sp(5))
  then show "allocated n1 p" using al allocated_mono by blast
  show "allocated n1 copy" using allocProgram_refs [OF a] by (auto simp: allocated_def)
qed

lemma wellFormed_initEditor:
  assumes "uniqueKeys st p" and "allocated n p"
  shows "wellFormed (initEditor stringify st n p)"
proof -
  obtain st1 n1 copy where f: "fromJSON st n p = (st1, n1, copy)" by (cases "fromJSON st n p")
  note w = wellFormed_fromJSON [OF assms f]
  show ?thesis using w(1-4) by (simp add: initEditor_def f wellFormed_def)
qed

lemma wellFormed_userEdit: "wellFormed s \<Longrightarrow> wellFormed (userEdit text s)"
  by (simp add: userEdit_def updateListener_def wellFormed_def Let_def)

lemma wellFormed_onExternalChange: "wellFormed s \<Longrightarrow> wellFormed (onExternalChange s)"
  by (simp add: onExternalChange_def wellFormed_def)

lemma wellFormed_externalSync:
  assumes wf: "wellFormed s"
  shows "wellFormed (externalSync stringify s)"
proof (cases "stringify (contentsOf (stores s) (rekaProgram s)) = currentCodeString s")
  case True
  then show ?thesis using wf by (simp add: externalSync_same wellFormed_def)
next
  case False
  obtain st1 n1 copy where f: "fromJSON (stores s) (nextRef s) (rekaProgram s) = (st1, n1, copy)"
    by (cases "fromJSON (stores s) (nextRef s) (rekaProgram s)")
  have u: "uniqueKeys (stores s) (rekaProgram s)" and al: "allocated (nextRef s) (rekaProgram s)"
    using wf by (simp_all add: wellFormed_def)
  note w = wellFormed_fromJSON [OF u al f]
  note e = externalSync_different [of stringify s st1 n1 copy, OF False f]
  have nr: "nextRef (externalSync stringify s) = n1"
    using False f by (simp add: externalSync_def dispatchReplaceAll_def updateListener_def Let_def)
  show ?thesis using w(1-4) e nr by (simp add: wellFormed_def)
qed

lemma wellFormed_syncCodeToState:
  assumes wf: "wellFormed s"
    and uq: "\<And>gs cs. parseProgram code = Inr (gs, cs) \<Longrightarrow> distinct (map name gs) \<and> distinct (map name cs)"
  shows "wellFormed (syncCodeToState parseProgram code s)"
proof (cases "isSynchingFromExternal s")
  case True
  then show ?thesis using wf by (simp add: syncCodeToState_def)
next
  case idle: False
  show ?thesis
  proof (cases "parseProgram code")
    case (Inl message)
    then show ?thesis using wf idle by (simp add: syncCodeToState_def wellFormed_def Let_def)
  next
    case (Inr parsed)
    obtain gs cs where parsed: "parsed = (gs, cs)" by (cases parsed)
    have d: "distinct (map name gs)" "distinct (map name cs)" using uq Inr parsed by simp_all
    obtain st1 n1 newAST where a: "allocProgram (gs, cs) (stores s) (nextRef s) = (st1, n1, newAST)"
      by (cases "allocProgram (gs, cs) (stores s) (nextRef s)")
    obtain st2 snapshot where d1: "diffAST st1 (currentState s) newAST = (st2, snapshot)"
      by (cases "diffAST st1 (currentState s) newAST")
    obtain st3 live where d2: "diffAST st2 (rekaProgram s) snapshot = (st3, live)"
      by (cases "diffAST st2 (rekaProgram s) snapshot")
    have p: "parseProgram code = Inr (gs, cs)" using Inr parsed by simp
    have run: "syncCodeToState parseProgram code s =
        s\<lparr>stores := st3, nextRef := n1, currentState := snapshot, rekaProgram := live,
          statuses := statuses s @ [Success], isSynchingFromCodeMirror := False, isTyping := False\<rparr>"
      using idle p a d1 d2 by (rule syncCodeToState_success)
    note al = allocProgram_spec [OF a]
    have w: "uniqueKeys (stores s) (rekaProgram s)" "uniqueKeys (stores s) (currentState s)"
      "allocated (nextRef s) (rekaProgram s)" "allocated (nextRef s) (currentState s)"
      using wf by (simp_all add: wellFormed_def)
    have u_snap: "uniqueKeys st1 (currentState s)"
      using uniqueKeys_frame [OF w(4) al(3,4)] w(2) by simp
    have u_live: "uniqueKeys st1 (rekaProgram s)"
      using uniqueKeys_frame [OF w(3) al(3,4)] w(1) by simp
    have u_new: "uniqueKeys st1 newAST"
      using al(1,2) d by (simp add: uniqueKeys_def names_contents)
    have a_new: "allocated n1 newAST" using allocProgram_refs [OF a] by (auto simp: allocated_def)
    have a_snap: "allocated n1 (currentState s)" and a_live: "allocated n1 (rekaProgram s)"
      using w(3,4) al(5) allocated_mono by blast+
    have u_snap': "uniqueKeys st2 snapshot" using d1 u_snap u_new by (rule diffAST_uniqueKeys)
    have a_snap': "allocated n1 snapshot" using d1 a_snap a_new by (rule diffAST_allocated)
    have u_live2: "uniqueKeys st2 (rekaProgram s)"
      using u_live diffAST_names [OF d1] by (simp add: uniqueKeys_def)
    have u_live': "uniqueKeys st3 live" using d2 u_live2 u_snap' by (rule diffAST_uniqueKeys)
    have a_live': "allocated n1 live" using d2 a_live a_snap' by (rule diffAST_allocated)
    have u_snap3: "uniqueKeys st3 snapshot"
      using u_snap' diffAST_names [OF d2] by (simp add: uniqueKeys_def)
    show ?thesis using u_live' u_snap3 a_live' a_snap' by (simp add: run wellFormed_def)
  qed
qed

text \<open>The example editor, evaluated.\<close>

lemma exEditor_eval:
  "exEditor = \<lparr>stores = (exGlobals(9 := \<lparr>name = ''a'', body = ''1''\<rparr>, 10 := \<lparr>name = ''b'', body = ''2''\<rparr>),
                         exComponents(11 := \<lparr>name = ''App'', body = ''old''\<rparr>,
                                       12 := \<lparr>name = ''Button'', body = ''b''\<rparr>)),
     nextRef = 13, rekaProgram = exCurrent,
     currentState = \<lparr>globals = [9, 10], components = [11, 12]\<rparr>,
     currentCodeString = ''a=1;b=2;App{old}Button{b}'', doc = ''a=1;b=2;App{old}Button{b}'',
     hasView = True, isSynchingFromCodeMirror = False, isSynchingFromExternal = False,
     isTyping = False, queuedExternalSync = False, pendingSync = None, statuses = []\<rparr>"
  by (simp add: exEditor_def initEditor_def fromJSON_def allocProgram_def contentsOf_def
      exStores_def exCurrent_def exPrint_def exGlobals_def exComponents_def)

lemma exEditorAdded_eval:
  "exEditorAdded = exEditor\<lparr>stores := (fst (stores exEditor), (snd (stores exEditor))(13 := exCard2)),
       nextRef := 14, rekaProgram := \<lparr>globals = [1, 2], components = [1, 2, 13]\<rparr>\<rparr>"
  by (simp add: exEditorAdded_def exEditor_eval exCurrent_def)

section \<open>The claims\<close>

subsection \<open>C1: key set and order after a reconciliation\<close>

text \<open>
  Claim C1, as amended. For trees \<open>current\<close> and \<open>incoming\<close> with unique keys, after
  \<open>diffAST\<close> the names of the globals of \<open>current\<close> are, as a set, the names of the
  globals of \<open>incoming\<close>, and likewise for the components; no name occurs twice; and the
  entries kept from \<open>current\<close> stand in the order they had in \<open>current\<close>. The order of
  \<open>incoming\<close> is not imposed: nothing in \<open>_diffASTArrayTypes\<close> moves an entry that is
  kept.
\<close>

theorem reconcile_key_set:
  assumes "uniqueKeys st current" and "uniqueKeys st incoming"
    and "diffAST st current incoming = (st', current')"
  shows "set (names (fst st') (globals current')) = set (names (fst st) (globals incoming))
       \<and> set (names (snd st') (components current')) = set (names (snd st) (components incoming))
       \<and> uniqueKeys st' current'
       \<and> filter (\<lambda>r. r \<in> set (globals current)) (globals current')
           = filter (\<lambda>r. name (fst st r) \<in> set (names (fst st) (globals incoming))) (globals current)
       \<and> filter (\<lambda>r. r \<in> set (components current)) (components current')
           = filter (\<lambda>r. name (snd st r) \<in> set (names (snd st) (components incoming)))
               (components current)"
proof -
  from diffAST_split [OF assms(3)]
  have g: "diffASTArrayTypes (fst st) (globals current) (globals incoming) = (fst st', globals current')"
    and c: "diffASTArrayTypes (snd st) (components current) (components incoming)
              = (snd st', components current')" by simp_all
  have "uniqueKeys st' current'" using assms(3,1,2) by (rule diffAST_uniqueKeys)
  then show ?thesis
    using diffArr_set_names [OF g] diffArr_set_names [OF c]
      diffArr_kept_order [OF g] diffArr_kept_order [OF c] by simp
qed

text \<open>
  The theorem of C1 at \<open>exCurrent\<close> and \<open>exReordered\<close>, which have unique keys.
\<close>

theorem reconcile_key_set_witness:
  "uniqueKeys exStores exCurrent \<and> uniqueKeys exStores exReordered
   \<and> set (names (fst (fst (diffAST exStores exCurrent exReordered)))
             (globals (snd (diffAST exStores exCurrent exReordered)))) = {''a'', ''b''}
   \<and> set (names (snd (fst (diffAST exStores exCurrent exReordered)))
             (components (snd (diffAST exStores exCurrent exReordered)))) = {''App'', ''Button''}
   \<and> uniqueKeys (fst (diffAST exStores exCurrent exReordered)) (snd (diffAST exStores exCurrent exReordered))
   \<and> filter (\<lambda>r. r \<in> set (globals exCurrent)) (globals (snd (diffAST exStores exCurrent exReordered)))
       = [1, 2]
   \<and> filter (\<lambda>r. r \<in> set (components exCurrent)) (components (snd (diffAST exStores exCurrent exReordered)))
       = [1, 2]"
proof -
  have h1: "uniqueKeys exStores exCurrent"
    by (simp add: uniqueKeys_def names_def exStores_def exCurrent_def exGlobals_def exComponents_def)
  have h2: "uniqueKeys exStores exReordered"
    by (simp add: uniqueKeys_def names_def exStores_def exReordered_def exGlobals_def exComponents_def)
  have h3: "diffAST exStores exCurrent exReordered
      = (fst (diffAST exStores exCurrent exReordered), snd (diffAST exStores exCurrent exReordered))" by simp
  have e: "names (fst exStores) (globals exReordered) = [''b'', ''a'']"
    "names (snd exStores) (components exReordered) = [''Button'', ''App'']"
    "filter (\<lambda>r. name (fst exStores r) \<in> set [''b'', ''a'']) (globals exCurrent) = [1, 2]"
    "filter (\<lambda>r. name (snd exStores r) \<in> set [''Button'', ''App'']) (components exCurrent) = [1, 2]"
    by (simp_all add: names_def exStores_def exCurrent_def exReordered_def exGlobals_def exComponents_def)
  show ?thesis using reconcile_key_set [OF h1 h2 h3] h1 h2 by (simp only: e) auto
qed

text \<open>
  C1 as stated fails where \<open>incoming\<close> merely reorders the entries: the globals \<open>a, b\<close>
  reconciled with \<open>b, a\<close> stay \<open>a, b\<close>.
\<close>

theorem reorder_counterexample:
  "uniqueKeys exStores exCurrent \<and> uniqueKeys exStores exReordered
   \<and> names (fst exStores) (globals exReordered) = [''b'', ''a'']
   \<and> names (fst (fst (diffAST exStores exCurrent exReordered)))
        (globals (snd (diffAST exStores exCurrent exReordered))) = [''a'', ''b'']"
  by (simp add: uniqueKeys_def names_def exStores_def exCurrent_def exReordered_def exGlobals_def
      exComponents_def diffAST_def diffASTArrayTypes_def isEqual_def merge_def spliceInsert_def
      spliceDelete_def)

subsection \<open>C2: a component added from outside while the user types\<close>

text \<open>
  Claim C2, as amended. Let no graph-to-text pass be in flight, let the user change the
  text to one that parses to globals \<open>gs\<close> and components \<open>cs\<close>, and let a component \<open>v\<close>
  be added to the live graph from outside before the timer fires (the typing flag
  suppresses the graph-to-text pass). After the text-to-graph sync, which reports
  success, the keys of the globals and of the components of the live graph are, as
  sets, the keys of the parsed text: every key of the text of the user is there, and if
  the text has no component of the name of \<open>v\<close>, then the live graph has none either,
  the second pass of \<open>diffAST\<close>, against the snapshot, removes it. If moreover the editor
  is well formed, the parsed globals and components have unique keys and no live
  component had the name of \<open>v\<close>, then the live graph holds exactly the parsed contents,
  field values included, with unique keys.
\<close>

theorem typing_sync_removes_external_component:
  assumes idle: "\<not> isSynchingFromExternal s"
    and p: "parseProgram text = Inr (gs, cs)"
    and s': "s' = debounceFire parseProgram (externalAddComponent v (userEdit text s))"
  shows "set (names (fst (stores s')) (globals (rekaProgram s'))) = set (map name gs)
       \<and> set (names (snd (stores s')) (components (rekaProgram s'))) = set (map name cs)
       \<and> statuses s' = statuses s @ [Parsing, Success]
       \<and> (name v \<notin> set (map name cs) \<longrightarrow>
            name v \<notin> set (names (snd (stores s')) (components (rekaProgram s'))))
       \<and> (wellFormed s \<and> distinct (map name gs) \<and> distinct (map name cs)
            \<and> name v \<notin> set (names (snd (stores s)) (components (rekaProgram s)))
          \<longrightarrow> fst (stores s') ` set (globals (rekaProgram s')) = set gs
            \<and> snd (stores s') ` set (components (rekaProgram s')) = set cs
            \<and> uniqueKeys (stores s') (rekaProgram s'))"
proof -
  let ?s1 = "userEdit text s"
  let ?s2 = "externalAddComponent v ?s1"
  let ?s3 = "?s2\<lparr>pendingSync := None\<rparr>"
  have s1: "?s1 = s\<lparr>doc := text, isTyping := True, currentCodeString := text,
        statuses := statuses s @ [Parsing], pendingSync := Some text\<rparr>"
    using idle by (rule userEdit_idle)
  have s2: "?s2 = ?s1\<lparr>stores := (fst (stores ?s1), (snd (stores ?s1))(nextRef ?s1 := v)),
         nextRef := Suc (nextRef ?s1),
         rekaProgram := (rekaProgram ?s1)\<lparr>components := components (rekaProgram ?s1) @ [nextRef ?s1]\<rparr>\<rparr>"
    by (rule externalAddComponent_typing) (simp add: s1)
  have idle3: "\<not> isSynchingFromExternal ?s3" using idle by (simp add: s2, simp add: s1)
  have pend: "pendingSync ?s2 = Some text" by (simp add: s2, simp add: s1)
  have run: "s' = syncCodeToState parseProgram text ?s3"
    unfolding s' using pend by (simp add: debounceFire_def)
  have st: "statuses ?s3 = statuses s @ [Parsing]" by (simp add: s2, simp add: s1)
  note k = sync_keys [OF idle3 p run]
  have content: "wellFormed s \<and> distinct (map name gs) \<and> distinct (map name cs)
            \<and> name v \<notin> set (names (snd (stores s)) (components (rekaProgram s)))
          \<longrightarrow> fst (stores s') ` set (globals (rekaProgram s')) = set gs
            \<and> snd (stores s') ` set (components (rekaProgram s')) = set cs
            \<and> uniqueKeys (stores s') (rekaProgram s')"
  proof
    assume h: "wellFormed s \<and> distinct (map name gs) \<and> distinct (map name cs)
            \<and> name v \<notin> set (names (snd (stores s)) (components (rekaProgram s)))"
    then have wf: "wellFormed s" and dg: "distinct (map name gs)" and dc: "distinct (map name cs)"
      and fresh: "name v \<notin> set (names (snd (stores s)) (components (rekaProgram s)))"
      by simp_all
    have wf3: "wellFormed ?s3"
      using wf fresh by (rule wellFormed_add_component) (simp_all add: s2, simp_all add: s1)
    from sync_result [OF wf3 idle3 p dg dc run]
    show "fst (stores s') ` set (globals (rekaProgram s')) = set gs
            \<and> snd (stores s') ` set (components (rekaProgram s')) = set cs
            \<and> uniqueKeys (stores s') (rekaProgram s')" by simp
  qed
  show ?thesis using k st content by simp
qed

text \<open>
  The theorem of C2 at the example editor: the user types \<open>exText\<close>, a peer adds \<open>Card2\<close>,
  the timer fires; once with the example parser, whose result has unique keys, and once
  with the parser whose result has the key \<open>a\<close> twice.
\<close>

theorem typing_sync_removes_external_component_witness:
  "\<not> isSynchingFromExternal exEditor
   \<and> exParse exText = Inr ([\<lparr>name = ''a'', body = ''1''\<rparr>, \<lparr>name = ''b'', body = ''2''\<rparr>],
                            [\<lparr>name = ''App'', body = ''new''\<rparr>, \<lparr>name = ''Button'', body = ''b''\<rparr>])
   \<and> wellFormed exEditor
   \<and> name exCard2 \<notin> set (names (snd (stores exEditor)) (components (rekaProgram exEditor)))
   \<and> set (names (snd (stores (debounceFire exParse (externalAddComponent exCard2 (userEdit exText exEditor)))))
         (components (rekaProgram (debounceFire exParse
                 (externalAddComponent exCard2 (userEdit exText exEditor))))))
       = {''App'', ''Button''}
   \<and> snd (stores (debounceFire exParse (externalAddComponent exCard2 (userEdit exText exEditor))))
        ` set (components (rekaProgram (debounceFire exParse
                 (externalAddComponent exCard2 (userEdit exText exEditor)))))
       = {\<lparr>name = ''App'', body = ''new''\<rparr>, \<lparr>name = ''Button'', body = ''b''\<rparr>}
   \<and> set (names (fst (stores (debounceFire exParseDuplicate
                 (externalAddComponent exCard2 (userEdit exText exEditor)))))
         (globals (rekaProgram (debounceFire exParseDuplicate
                 (externalAddComponent exCard2 (userEdit exText exEditor))))))
       = {''a'', ''b''}
   \<and> name exCard2 \<notin> set (names
         (snd (stores (debounceFire exParseDuplicate
                 (externalAddComponent exCard2 (userEdit exText exEditor)))))
         (components (rekaProgram (debounceFire exParseDuplicate
                 (externalAddComponent exCard2 (userEdit exText exEditor))))))"
proof -
  let ?gs = "[\<lparr>name = ''a'', body = ''1''\<rparr>, \<lparr>name = ''b'', body = ''2''\<rparr>]"
  let ?cs = "[\<lparr>name = ''App'', body = ''new''\<rparr>, \<lparr>name = ''Button'', body = ''b''\<rparr>]"
  let ?gd = "[\<lparr>name = ''a'', body = ''first''\<rparr>, \<lparr>name = ''a'', body = ''second''\<rparr>,
           \<lparr>name = ''b'', body = ''2''\<rparr>]"
  let ?cd = "[\<lparr>name = ''App'', body = ''old''\<rparr>, \<lparr>name = ''Button'', body = ''b''\<rparr>]"
  have wf: "wellFormed exEditor"
    by (simp add: exEditor_eval wellFormed_def uniqueKeys_def allocated_def names_def
        exCurrent_def exGlobals_def exComponents_def)
  have idle: "\<not> isSynchingFromExternal exEditor" by (simp add: exEditor_eval)
  have p: "exParse exText = Inr (?gs, ?cs)" by (simp add: exParse_def)
  have pd: "exParseDuplicate exText = Inr (?gd, ?cd)" by (simp add: exParseDuplicate_def)
  have fresh: "name exCard2 \<notin> set (names (snd (stores exEditor)) (components (rekaProgram exEditor)))"
    by (simp add: exEditor_eval names_def exCard2_def exCurrent_def exComponents_def)
  have nc: "name exCard2 \<notin> set (map name ?cs)" "name exCard2 \<notin> set (map name ?cd)"
    "distinct (map name ?gs)" "distinct (map name ?cs)"
    "set (map name ?cs) = {''App'', ''Button''}" "set (map name ?gd) = {''a'', ''b''}"
    "set ?cs = {\<lparr>name = ''App'', body = ''new''\<rparr>, \<lparr>name = ''Button'', body = ''b''\<rparr>}"
    by (simp_all add: exCard2_def)
  note t1 = typing_sync_removes_external_component [of exEditor exParse exText ?gs ?cs
        "debounceFire exParse (externalAddComponent exCard2 (userEdit exText exEditor))" exCard2,
        OF idle p refl]
  note t2 = typing_sync_removes_external_component [of exEditor exParseDuplicate exText ?gd ?cd
        "debounceFire exParseDuplicate (externalAddComponent exCard2 (userEdit exText exEditor))"
        exCard2, OF idle pd refl]
  show ?thesis using t1 t2 wf idle p fresh nc by simp
qed

text \<open>
  C2 as stated fails in that run: before the timer fires the live graph has the
  components \<open>App\<close>, \<open>Button\<close> and \<open>Card2\<close>; after the sync, which succeeds, \<open>Card2\<close> is
  gone.
\<close>

theorem external_component_counterexample:
  "names (snd (stores (externalAddComponent exCard2 (userEdit exText exEditor))))
      (components (rekaProgram (externalAddComponent exCard2 (userEdit exText exEditor))))
     = [''App'', ''Button'', ''Card2'']
   \<and> names (snd (stores (debounceFire exParse (externalAddComponent exCard2 (userEdit exText exEditor)))))
      (components (rekaProgram (debounceFire exParse
          (externalAddComponent exCard2 (userEdit exText exEditor)))))
     = [''App'', ''Button'']
   \<and> statuses (debounceFire exParse (externalAddComponent exCard2 (userEdit exText exEditor)))
     = [Parsing, Success]"
  by (simp add: exEditor_eval userEdit_def updateListener_def externalAddComponent_def
      notifyChange_def onExternalChange_def debounceFire_def syncCodeToState_def allocProgram_def
      diffAST_def diffASTArrayTypes_def isEqual_def merge_def spliceInsert_def spliceDelete_def
      names_def exParse_def exText_def exCard2_def exCurrent_def exGlobals_def exComponents_def
      Let_def)

subsection \<open>C3: an incoming tree with a key twice\<close>

text \<open>
  Claim C3, as amended. \<open>reconcile\<close> has no failure: on every input, also one whose
  incoming tree has a key twice, it ends normally, and the names of the result are, as a
  set, those of the incoming tree. Where the incoming sequence shares no object with
  the current one (as for a tree that was just parsed), the entries of one key are
  treated as \<^const>\<open>duplicatesMerged\<close> says: if a current entry has the key, none of them
  is inserted, and the first current entry of that key stays and ends with the contents
  of the last incoming entry of the key, wherever that entry stands; if no current
  entry has the key, each of them is in the result as an object of its own, with its
  contents untouched.
\<close>

theorem reconcile_duplicate_keys:
  "reconcile st current incoming = Inr (diffAST st current incoming)
   \<and> set (names (fst (fst (diffAST st current incoming))) (globals (snd (diffAST st current incoming))))
       = set (names (fst st) (globals incoming))
   \<and> set (names (snd (fst (diffAST st current incoming))) (components (snd (diffAST st current incoming))))
       = set (names (snd st) (components incoming))
   \<and> (set (globals incoming) \<inter> set (globals current) = {} \<longrightarrow>
        duplicatesMerged (fst st) (globals current) (globals incoming)
          (fst (fst (diffAST st current incoming))) (globals (snd (diffAST st current incoming))))
   \<and> (set (components incoming) \<inter> set (components current) = {} \<longrightarrow>
        duplicatesMerged (snd st) (components current) (components incoming)
          (snd (fst (diffAST st current incoming))) (components (snd (diffAST st current incoming))))"
proof -
  obtain st' p' where d: "diffAST st current incoming = (st', p')"
    by (cases "diffAST st current incoming")
  from diffAST_split [OF d]
  have g: "diffASTArrayTypes (fst st) (globals current) (globals incoming) = (fst st', globals p')"
    and c: "diffASTArrayTypes (snd st) (components current) (components incoming)
              = (snd st', components p')" by simp_all
  have lg: "set (globals incoming) \<inter> set (globals current) = {} \<longrightarrow>
        duplicatesMerged (fst st) (globals current) (globals incoming) (fst st') (globals p')"
    using g by (simp add: diffArr_duplicates)
  have lc: "set (components incoming) \<inter> set (components current) = {} \<longrightarrow>
        duplicatesMerged (snd st) (components current) (components incoming) (snd st') (components p')"
    using c by (simp add: diffArr_duplicates)
  show ?thesis
    using diffArr_set_names [OF g] diffArr_set_names [OF c] lg lc
    by (simp add: reconcile_def d)
qed

text \<open>
  The theorem of C3 at \<open>exDuplicateMiddle\<close>, where the two entries of the key \<open>a\<close> are
  followed by \<open>b\<close> and the current tree has an \<open>a\<close>, and at \<open>exDuplicate\<close> with an empty
  current tree, where both entries of \<open>a\<close> are inserted.
\<close>

theorem reconcile_duplicate_keys_witness:
  "set (globals exDuplicateMiddle) \<inter> set (globals exCurrent) = {}
   \<and> set (components exDuplicateMiddle) \<inter> set (components exCurrent) = {}
   \<and> reconcile exStores exCurrent exDuplicateMiddle = Inr (diffAST exStores exCurrent exDuplicateMiddle)
   \<and> fst (fst (diffAST exStores exCurrent exDuplicateMiddle)) 1 = \<lparr>name = ''a'', body = ''second''\<rparr>
   \<and> fst (fst (diffAST exStores exCurrent exDuplicateMiddle)) 2 = \<lparr>name = ''b'', body = ''2''\<rparr>
   \<and> 7 \<notin> set (globals (snd (diffAST exStores exCurrent exDuplicateMiddle)))
   \<and> 8 \<notin> set (globals (snd (diffAST exStores exCurrent exDuplicateMiddle)))
   \<and> set (globals exDuplicate) \<inter> set (globals exEmpty) = {}
   \<and> 7 \<in> set (globals (snd (diffAST exStores exEmpty exDuplicate)))
   \<and> 8 \<in> set (globals (snd (diffAST exStores exEmpty exDuplicate)))
   \<and> fst (fst (diffAST exStores exEmpty exDuplicate)) 7 = \<lparr>name = ''a'', body = ''first''\<rparr>
   \<and> fst (fst (diffAST exStores exEmpty exDuplicate)) 8 = \<lparr>name = ''a'', body = ''second''\<rparr>"
proof -
  have h1: "set (globals exDuplicateMiddle) \<inter> set (globals exCurrent) = {}"
    "set (components exDuplicateMiddle) \<inter> set (components exCurrent) = {}"
    by (simp_all add: exDuplicateMiddle_def exCurrent_def)
  have h2: "set (globals exDuplicate) \<inter> set (globals exEmpty) = {}"
    by (simp add: exDuplicate_def exEmpty_def)
  note t1 = reconcile_duplicate_keys [of exStores exCurrent exDuplicateMiddle]
  note t2 = reconcile_duplicate_keys [of exStores exEmpty exDuplicate]
  from t1 h1 have "duplicatesMerged (fst exStores) (globals exCurrent) (globals exDuplicateMiddle)
          (fst (fst (diffAST exStores exCurrent exDuplicateMiddle)))
          (globals (snd (diffAST exStores exCurrent exDuplicateMiddle)))" by blast
  then have a: "fst (fst (diffAST exStores exCurrent exDuplicateMiddle)) 1 = \<lparr>name = ''a'', body = ''second''\<rparr>
      \<and> fst (fst (diffAST exStores exCurrent exDuplicateMiddle)) 2 = \<lparr>name = ''b'', body = ''2''\<rparr>
      \<and> 7 \<notin> set (globals (snd (diffAST exStores exCurrent exDuplicateMiddle)))
      \<and> 8 \<notin> set (globals (snd (diffAST exStores exCurrent exDuplicateMiddle)))"
    by (simp add: duplicatesMerged_def lastOfKey_def isEqual_def exStores_def exCurrent_def
        exDuplicateMiddle_def exGlobals_def)
  from t2 h2 have "duplicatesMerged (fst exStores) (globals exEmpty) (globals exDuplicate)
          (fst (fst (diffAST exStores exEmpty exDuplicate)))
          (globals (snd (diffAST exStores exEmpty exDuplicate)))" by blast
  then have b: "7 \<in> set (globals (snd (diffAST exStores exEmpty exDuplicate)))
     \<and> 8 \<in> set (globals (snd (diffAST exStores exEmpty exDuplicate)))
     \<and> fst (fst (diffAST exStores exEmpty exDuplicate)) 7 = \<lparr>name = ''a'', body = ''first''\<rparr>
     \<and> fst (fst (diffAST exStores exEmpty exDuplicate)) 8 = \<lparr>name = ''a'', body = ''second''\<rparr>"
    by (simp add: duplicatesMerged_def lastOfKey_def isEqual_def exStores_def exEmpty_def
        exDuplicate_def exGlobals_def)
  from t1 have c: "reconcile exStores exCurrent exDuplicateMiddle
      = Inr (diffAST exStores exCurrent exDuplicateMiddle)" by blast
  show ?thesis using h1 h2 a b c by blast
qed

text \<open>
  C3 as stated fails at \<open>exDuplicate\<close>: the incoming globals have the key \<open>a\<close> twice, no
  error is reported, and the current global \<open>a\<close> ends with the contents of the second
  one.
\<close>

theorem duplicate_keys_counterexample:
  "\<not> distinct (names (fst exStores) (globals exDuplicate))
   \<and> reconcile exStores exCurrent exDuplicate \<noteq> Inl InternalConsistencyError
   \<and> globals (snd (diffAST exStores exCurrent exDuplicate)) = [1]
   \<and> fst (fst (diffAST exStores exCurrent exDuplicate)) 1 = \<lparr>name = ''a'', body = ''second''\<rparr>"
  by (simp add: reconcile_def diffAST_def diffASTArrayTypes_def isEqual_def merge_def
      spliceInsert_def spliceDelete_def names_def exStores_def exCurrent_def exDuplicate_def
      exGlobals_def exComponents_def)

subsection \<open>C4: matched entries keep their identity\<close>

text \<open>
  Claim C4. For trees with unique keys, \<open>diffAST\<close> reconciles the globals and the
  components in place (\<^const>\<open>reconciledInPlace\<close>): every current entry whose name occurs
  in the incoming tree is still there as the same object, with the contents of the
  incoming entry of that name; an entry is removed only if its name is absent from the
  incoming tree; and an object is new in the result only if it is an incoming object
  whose name no current entry had.
\<close>

theorem matched_entries_keep_identity:
  assumes "uniqueKeys st current" and "uniqueKeys st incoming"
    and "diffAST st current incoming = (st', current')"
  shows "reconciledInPlace (fst st) (globals current) (globals incoming) (fst st') (globals current')
       \<and> reconciledInPlace (snd st) (components current) (components incoming)
            (snd st') (components current')"
proof -
  from diffAST_split [OF assms(3)]
  have g: "diffASTArrayTypes (fst st) (globals current) (globals incoming) = (fst st', globals current')"
    and c: "diffASTArrayTypes (snd st) (components current) (components incoming)
              = (snd st', components current')" by simp_all
  show ?thesis using assms(1,2) g c by (simp add: uniqueKeys_def diffArr_in_place)
qed

text \<open>
  The theorem of C4 at \<open>exCurrent\<close> and \<open>exEdited\<close>, where the body of \<open>App\<close> changed.
\<close>

theorem matched_entries_keep_identity_witness:
  "uniqueKeys exStores exCurrent \<and> uniqueKeys exStores exEdited
   \<and> reconciledInPlace (fst exStores) (globals exCurrent) (globals exEdited)
        (fst (fst (diffAST exStores exCurrent exEdited))) (globals (snd (diffAST exStores exCurrent exEdited)))
   \<and> reconciledInPlace (snd exStores) (components exCurrent) (components exEdited)
        (snd (fst (diffAST exStores exCurrent exEdited)))
        (components (snd (diffAST exStores exCurrent exEdited)))
   \<and> 1 \<in> set (components (snd (diffAST exStores exCurrent exEdited)))
   \<and> snd (fst (diffAST exStores exCurrent exEdited)) 1 = \<lparr>name = ''App'', body = ''new''\<rparr>"
proof -
  have h1: "uniqueKeys exStores exCurrent"
    by (simp add: uniqueKeys_def names_def exStores_def exCurrent_def exGlobals_def exComponents_def)
  have h2: "uniqueKeys exStores exEdited"
    by (simp add: uniqueKeys_def names_def exStores_def exEdited_def exGlobals_def exComponents_def)
  have h3: "diffAST exStores exCurrent exEdited
      = (fst (diffAST exStores exCurrent exEdited), snd (diffAST exStores exCurrent exEdited))" by simp
  note t = matched_entries_keep_identity [OF h1 h2 h3]
  let ?h' = "snd (fst (diffAST exStores exCurrent exEdited))"
  let ?c' = "components (snd (diffAST exStores exCurrent exEdited))"
  from t have "\<forall>r \<in> set (components exCurrent).
      name (snd exStores r) \<in> set (names (snd exStores) (components exEdited)) \<longrightarrow>
        r \<in> set ?c' \<and> (\<exists>n \<in> set (components exEdited).
           name (snd exStores n) = name (snd exStores r) \<and> ?h' r = snd exStores n)"
    by (simp add: reconciledInPlace_def)
  then have "1 \<in> set ?c' \<and> ?h' 1 = \<lparr>name = ''App'', body = ''new''\<rparr>"
    by (simp add: names_def exStores_def exCurrent_def exEdited_def exComponents_def)
  then show ?thesis using t h1 h2 by simp
qed

subsection \<open>C5: a text that does not parse\<close>

text \<open>
  Claim C5. When the sync runs on a text on which the parser fails with \<open>message\<close>, it
  changes nothing but the statuses and the two flags that it resets: the stores, the
  live graph and the snapshot are as before, and the status \<open>Error message\<close> is passed to
  the callback. The failure is the \<open>Inl\<close> branch of the \<open>catch\<close>; the function returns the
  state, nothing is thrown on.
\<close>

theorem parse_failure_leaves_graph:
  assumes "parseProgram code = Inl message" and "\<not> isSynchingFromExternal s"
  shows "syncCodeToState parseProgram code s =
           s\<lparr>statuses := statuses s @ [Error message],
             isSynchingFromCodeMirror := False, isTyping := False\<rparr>
       \<and> stores (syncCodeToState parseProgram code s) = stores s
       \<and> rekaProgram (syncCodeToState parseProgram code s) = rekaProgram s
       \<and> currentState (syncCodeToState parseProgram code s) = currentState s
       \<and> statuses (syncCodeToState parseProgram code s) = statuses s @ [Error message]"
  using assms by (simp add: syncCodeToState_def Let_def)

text \<open>
  The theorem of C5 at the example editor and a text that the example parser rejects.
\<close>

theorem parse_failure_leaves_graph_witness:
  "exParse ''val'' = Inl ''Unexpected token'' \<and> \<not> isSynchingFromExternal exEditor
   \<and> stores (syncCodeToState exParse ''val'' exEditor) = stores exEditor
   \<and> rekaProgram (syncCodeToState exParse ''val'' exEditor) = rekaProgram exEditor
   \<and> statuses (syncCodeToState exParse ''val'' exEditor) = [Error ''Unexpected token'']"
proof -
  have h1: "exParse ''val'' = Inl ''Unexpected token''" by (simp add: exParse_def exText_def)
  have h2: "\<not> isSynchingFromExternal exEditor" by (simp add: exEditor_eval)
  have "statuses exEditor = []" by (simp add: exEditor_eval)
  then show ?thesis using parse_failure_leaves_graph [of exParse "''val''" "''Unexpected token''" exEditor] h1 h2
    by simp
qed

subsection \<open>C6: reconciling with a deep copy\<close>

text \<open>
  Claim C6. For a tree with unique keys and an incoming tree with the same contents,
  entry by entry (a deep copy), \<open>diffAST\<close> changes nothing: the stores are the same, and
  the sequences hold the same objects in the same order.
\<close>

theorem reconcile_deep_copy:
  assumes "uniqueKeys st current" and "contentsOf st incoming = contentsOf st current"
  shows "diffAST st current incoming = (st, current)"
proof -
  have "diffASTArrayTypes (fst st) (globals current) (globals incoming) = (fst st, globals current)"
    using assms by (simp add: uniqueKeys_def contentsOf_def diffArr_copy)
  moreover have "diffASTArrayTypes (snd st) (components current) (components incoming)
      = (snd st, components current)"
    using assms by (simp add: uniqueKeys_def contentsOf_def diffArr_copy)
  ultimately show ?thesis by (simp add: diffAST_def)
qed

text \<open>
  The theorem of C6 at \<open>exCurrent\<close> and its copy \<open>exCopy\<close>.
\<close>

theorem reconcile_deep_copy_witness:
  "uniqueKeys exStores exCurrent \<and> contentsOf exStores exCopy = contentsOf exStores exCurrent
   \<and> diffAST exStores exCurrent exCopy = (exStores, exCurrent)"
proof -
  have h1: "uniqueKeys exStores exCurrent"
    by (simp add: uniqueKeys_def names_def exStores_def exCurrent_def exGlobals_def exComponents_def)
  have h2: "contentsOf exStores exCopy = contentsOf exStores exCurrent"
    by (simp add: contentsOf_def exStores_def exCurrent_def exCopy_def exGlobals_def exComponents_def)
  show ?thesis using reconcile_deep_copy [OF h1 h2] h1 h2 by simp
qed

subsection \<open>C7: one added key, one removed key\<close>

text \<open>
  Claim C7. Let \<open>current\<close> have unique keys. If one sequence of \<open>incoming\<close> differs from
  that of \<open>current\<close> by exactly one added key, at index \<open>k\<close>, and the other sequence has
  the keys of \<open>current\<close>, then after \<open>diffAST\<close> the incoming object itself stands at index
  \<open>k\<close> of the current sequence, between the entries that were there; if it differs by
  exactly one removed key, the entry at index \<open>k\<close> of \<open>current\<close> is removed. In both cases
  all other entries are the same objects in the same order, and where \<open>incoming\<close> changes
  no field of an entry that it shares with \<open>current\<close>, the stores are unchanged: every
  object has the field values it had.
\<close>

theorem single_addition_or_removal:
  assumes "uniqueKeys st current"
  shows "(addedKey (fst st) (globals current) (globals incoming) k
          \<and> names (snd st) (components incoming) = names (snd st) (components current)
        \<longrightarrow> snd (diffAST st current incoming) =
              current\<lparr>globals := take k (globals current) @ globals incoming ! k
                                  # drop k (globals current)\<rparr>)
       \<and> (addedKey (snd st) (components current) (components incoming) k
          \<and> names (fst st) (globals incoming) = names (fst st) (globals current)
        \<longrightarrow> snd (diffAST st current incoming) =
              current\<lparr>components := take k (components current) @ components incoming ! k
                                     # drop k (components current)\<rparr>)
       \<and> (removedKey (fst st) (globals current) (globals incoming) k
          \<and> names (snd st) (components incoming) = names (snd st) (components current)
        \<longrightarrow> snd (diffAST st current incoming) =
              current\<lparr>globals := take k (globals current) @ drop (Suc k) (globals current)\<rparr>)
       \<and> (removedKey (snd st) (components current) (components incoming) k
          \<and> names (fst st) (globals incoming) = names (fst st) (globals current)
        \<longrightarrow> snd (diffAST st current incoming) =
              current\<lparr>components := take k (components current)
                                     @ drop (Suc k) (components current)\<rparr>)
       \<and> (sameFields (fst st) (globals current) (globals incoming)
          \<and> sameFields (snd st) (components current) (components incoming)
        \<longrightarrow> fst (diffAST st current incoming) = st)"
proof -
  have dg: "distinct (names (fst st) (globals current))"
    and dc: "distinct (names (snd st) (components current))"
    using assms by (simp_all add: uniqueKeys_def)
  show ?thesis
    using diffArr_same_keys [of "fst st" "globals incoming" "globals current"]
      diffArr_same_keys [of "snd st" "components incoming" "components current"]
      diffArr_added_key [of "fst st" "globals current" "globals incoming" k]
      diffArr_added_key [of "snd st" "components current" "components incoming" k]
      diffArr_removed_key [OF dg, of "globals incoming" k]
      diffArr_removed_key [OF dc, of "components incoming" k]
      diffArr_sameFields [of "fst st" "globals current" "globals incoming"]
      diffArr_sameFields [of "snd st" "components current" "components incoming"]
    by (simp add: diffAST_fst_snd)
qed

text \<open>
  The theorem of C7 at four incoming trees: a global added, a component added, a global
  removed, a component removed.
\<close>

theorem single_addition_or_removal_witness:
  "uniqueKeys exStores exCurrent
   \<and> addedKey (fst exStores) (globals exCurrent) (globals exAddedGlobal) 1
   \<and> sameFields (fst exStores) (globals exCurrent) (globals exAddedGlobal)
   \<and> diffAST exStores exCurrent exAddedGlobal = (exStores, exCurrent\<lparr>globals := [1, 5, 2]\<rparr>)
   \<and> addedKey (snd exStores) (components exCurrent) (components exAddedComponent) 1
   \<and> diffAST exStores exCurrent exAddedComponent = (exStores, exCurrent\<lparr>components := [1, 4, 2]\<rparr>)
   \<and> removedKey (fst exStores) (globals exCurrent) (globals exRemovedGlobal) 0
   \<and> diffAST exStores exCurrent exRemovedGlobal = (exStores, exCurrent\<lparr>globals := [2]\<rparr>)
   \<and> removedKey (snd exStores) (components exCurrent) (components exRemovedComponent) 0
   \<and> diffAST exStores exCurrent exRemovedComponent = (exStores, exCurrent\<lparr>components := [2]\<rparr>)"
proof -
  have h: "uniqueKeys exStores exCurrent"
    by (simp add: uniqueKeys_def names_def exStores_def exCurrent_def exGlobals_def exComponents_def)
  have a: "addedKey (fst exStores) (globals exCurrent) (globals exAddedGlobal) 1
      \<and> names (snd exStores) (components exAddedGlobal) = names (snd exStores) (components exCurrent)"
    "sameFields (fst exStores) (globals exCurrent) (globals exAddedGlobal)
      \<and> sameFields (snd exStores) (components exCurrent) (components exAddedGlobal)"
    by (simp_all add: addedKey_def sameFields_def names_def exStores_def exCurrent_def
        exAddedGlobal_def exGlobals_def exComponents_def)
  have b: "addedKey (snd exStores) (components exCurrent) (components exAddedComponent) 1
      \<and> names (fst exStores) (globals exAddedComponent) = names (fst exStores) (globals exCurrent)"
    "sameFields (fst exStores) (globals exCurrent) (globals exAddedComponent)
      \<and> sameFields (snd exStores) (components exCurrent) (components exAddedComponent)"
    by (simp_all add: addedKey_def sameFields_def names_def exStores_def exCurrent_def
        exAddedComponent_def exGlobals_def exComponents_def)
  have c: "removedKey (fst exStores) (globals exCurrent) (globals exRemovedGlobal) 0
      \<and> names (snd exStores) (components exRemovedGlobal) = names (snd exStores) (components exCurrent)"
    "sameFields (fst exStores) (globals exCurrent) (globals exRemovedGlobal)
      \<and> sameFields (snd exStores) (components exCurrent) (components exRemovedGlobal)"
    by (simp_all add: removedKey_def sameFields_def names_def exStores_def exCurrent_def
        exRemovedGlobal_def exGlobals_def exComponents_def)
  have d: "removedKey (snd exStores) (components exCurrent) (components exRemovedComponent) 0
      \<and> names (fst exStores) (globals exRemovedComponent) = names (fst exStores) (globals exCurrent)"
    "sameFields (fst exStores) (globals exCurrent) (globals exRemovedComponent)
      \<and> sameFields (snd exStores) (components exCurrent) (components exRemovedComponent)"
    by (simp_all add: removedKey_def sameFields_def names_def exStores_def exCurrent_def
        exRemovedComponent_def exGlobals_def exComponents_def)
  have e: "take 1 (globals exCurrent) @ globals exAddedGlobal ! 1 # drop 1 (globals exCurrent) = [1, 5, 2]"
    "take 1 (components exCurrent) @ components exAddedComponent ! 1 # drop 1 (components exCurrent)
       = [1, 4, 2]"
    "take 0 (globals exCurrent) @ drop (Suc 0) (globals exCurrent) = [2]"
    "take 0 (components exCurrent) @ drop (Suc 0) (components exCurrent) = [2]"
    by (simp_all add: exCurrent_def exAddedGlobal_def exAddedComponent_def)
  note t1 = single_addition_or_removal [OF h, of exAddedGlobal 1]
  note t2 = single_addition_or_removal [OF h, of exAddedComponent 1]
  note t3 = single_addition_or_removal [OF h, of exRemovedGlobal 0]
  note t4 = single_addition_or_removal [OF h, of exRemovedComponent 0]
  have r1: "diffAST exStores exCurrent exAddedGlobal = (exStores, exCurrent\<lparr>globals := [1, 5, 2]\<rparr>)"
    using t1 a e(1) by (simp add: prod_eq_iff)
  have r2: "diffAST exStores exCurrent exAddedComponent = (exStores, exCurrent\<lparr>components := [1, 4, 2]\<rparr>)"
    using t2 b e(2) by (simp add: prod_eq_iff)
  have r3: "diffAST exStores exCurrent exRemovedGlobal = (exStores, exCurrent\<lparr>globals := [2]\<rparr>)"
    using t3 c e(3) by (simp add: prod_eq_iff)
  have r4: "diffAST exStores exCurrent exRemovedComponent = (exStores, exCurrent\<lparr>components := [2]\<rparr>)"
    using t4 d e(4) by (simp add: prod_eq_iff)
  show ?thesis using h a b c d r1 r2 r3 r4 by simp
qed

subsection \<open>C8: no echo between the two directions\<close>

text \<open>
  Claim C8. While the text-to-graph pass is in flight (\<open>isSynchingFromCodeMirror\<close>), a
  change notification does nothing; while the graph-to-text pass is in flight
  (\<open>isSynchingFromExternal\<close>), the update listener does nothing, and so the replacement
  of the text starts no timer and emits no status. The text-to-graph pass, whose own
  mutation is notified while it is in flight, queues no graph-to-text pass. One
  keystroke in an idle editor, followed by the timer, gives exactly one text-to-graph
  pass (one \<open>Parsing\<close> and one result), leaves no timer pending and queues no
  graph-to-text pass.
\<close>

theorem echo_suppression:
  "(isSynchingFromCodeMirror s \<longrightarrow> onExternalChange s = s)
   \<and> (isSynchingFromExternal s \<longrightarrow> updateListener docChanged s = s)
   \<and> queuedExternalSync (syncCodeToState parseProgram code s) = queuedExternalSync s
   \<and> isSynchingFromExternal (syncCodeToState parseProgram code s) = isSynchingFromExternal s
   \<and> (isSynchingFromExternal s \<longrightarrow>
        pendingSync (externalSync stringify s) = pendingSync s
        \<and> statuses (externalSync stringify s) = statuses s)
   \<and> (\<not> isSynchingFromExternal s \<longrightarrow>
        pendingSync (debounceFire parseProgram (userEdit text s)) = None
        \<and> queuedExternalSync (debounceFire parseProgram (userEdit text s)) = queuedExternalSync s
        \<and> \<not> isSynchingFromExternal (debounceFire parseProgram (userEdit text s))
        \<and> statuses (debounceFire parseProgram (userEdit text s)) =
            statuses s @ [Parsing,
              case parseProgram text of Inl message \<Rightarrow> Error message | Inr parsed \<Rightarrow> Success])"
proof -
  have a: "isSynchingFromCodeMirror s \<longrightarrow> onExternalChange s = s"
    by (simp add: onExternalChange_def)
  have b: "isSynchingFromExternal s \<longrightarrow> updateListener docChanged s = s"
    by (simp add: updateListener_def)
  have k: "\<not> isSynchingFromExternal s \<longrightarrow>
        pendingSync (debounceFire parseProgram (userEdit text s)) = None
        \<and> queuedExternalSync (debounceFire parseProgram (userEdit text s)) = queuedExternalSync s
        \<and> \<not> isSynchingFromExternal (debounceFire parseProgram (userEdit text s))
        \<and> statuses (debounceFire parseProgram (userEdit text s)) =
            statuses s @ [Parsing,
              case parseProgram text of Inl message \<Rightarrow> Error message | Inr parsed \<Rightarrow> Success]"
  proof
    assume idle: "\<not> isSynchingFromExternal s"
    let ?s1 = "userEdit text s"
    let ?s2 = "?s1\<lparr>pendingSync := None\<rparr>"
    have s1: "?s1 = s\<lparr>doc := text, isTyping := True, currentCodeString := text,
        statuses := statuses s @ [Parsing], pendingSync := Some text\<rparr>"
      using idle by (rule userEdit_idle)
    have run: "debounceFire parseProgram ?s1 = syncCodeToState parseProgram text ?s2"
      by (simp add: debounceFire_def s1)
    have idle2: "\<not> isSynchingFromExternal ?s2" using idle by (simp add: s1)
    have st2: "statuses ?s2 = statuses s @ [Parsing]" "queuedExternalSync ?s2 = queuedExternalSync s"
      "pendingSync ?s2 = None" "isSynchingFromExternal ?s2 = isSynchingFromExternal s"
      by (simp_all add: s1)
    show "pendingSync (debounceFire parseProgram (userEdit text s)) = None
        \<and> queuedExternalSync (debounceFire parseProgram (userEdit text s)) = queuedExternalSync s
        \<and> \<not> isSynchingFromExternal (debounceFire parseProgram (userEdit text s))
        \<and> statuses (debounceFire parseProgram (userEdit text s)) =
            statuses s @ [Parsing,
              case parseProgram text of Inl message \<Rightarrow> Error message | Inr parsed \<Rightarrow> Success]"
      unfolding run
      using syncCodeToState_external_flags [of parseProgram "text" "?s2"]
        syncCodeToState_status [OF idle2, of parseProgram "text"] st2 idle
      by simp
  qed
  show ?thesis
    using a b k syncCodeToState_external_flags [of parseProgram code s]
      externalSync_ignores_listener [of s stringify] by blast
qed

text \<open>
  The theorem of C8 at the example editor: with the first flag set, with the second flag
  set, and idle.
\<close>

theorem echo_suppression_witness:
  "isSynchingFromCodeMirror (exEditor\<lparr>isSynchingFromCodeMirror := True\<rparr>)
   \<and> onExternalChange (exEditor\<lparr>isSynchingFromCodeMirror := True\<rparr>)
       = exEditor\<lparr>isSynchingFromCodeMirror := True\<rparr>
   \<and> isSynchingFromExternal (exEditor\<lparr>isSynchingFromExternal := True\<rparr>)
   \<and> updateListener True (exEditor\<lparr>isSynchingFromExternal := True\<rparr>)
       = exEditor\<lparr>isSynchingFromExternal := True\<rparr>
   \<and> pendingSync (externalSync exPrint (exEditor\<lparr>isSynchingFromExternal := True\<rparr>)) = None
   \<and> \<not> isSynchingFromExternal exEditor
   \<and> \<not> queuedExternalSync (debounceFire exParse (userEdit exText exEditor))
   \<and> pendingSync (debounceFire exParse (userEdit exText exEditor)) = None
   \<and> statuses (debounceFire exParse (userEdit exText exEditor)) = [Parsing, Success]"
proof -
  have e: "\<not> isSynchingFromExternal exEditor" "\<not> queuedExternalSync exEditor"
    "statuses exEditor = []" "pendingSync exEditor = None"
    by (simp_all add: exEditor_eval)
  have p: "exParse exText = Inr ([\<lparr>name = ''a'', body = ''1''\<rparr>, \<lparr>name = ''b'', body = ''2''\<rparr>],
                            [\<lparr>name = ''App'', body = ''new''\<rparr>, \<lparr>name = ''Button'', body = ''b''\<rparr>])"
    by (simp add: exParse_def)
  show ?thesis
    using echo_suppression [of "exEditor\<lparr>isSynchingFromCodeMirror := True\<rparr>" True exParse exText
        exPrint exText]
      echo_suppression [of "exEditor\<lparr>isSynchingFromExternal := True\<rparr>" True exParse exText
        exPrint exText]
      echo_suppression [of exEditor True exParse exText exPrint exText] e p
    by simp
qed

subsection \<open>C9: the graph-to-text pass\<close>

text \<open>
  Claim C9, as amended. Let the cached code string be the text of the editor, and let a
  change of the graph be notified: \<open>onExternalChange\<close> runs, then the microtask queue.
  If no text-to-graph pass is in flight, the user is not typing, the view exists and no
  graph-to-text pass is in flight, then: if the print of the live graph differs from the
  text of the editor, the whole document becomes the print, the cached code string too,
  and the snapshot becomes what \<open>fromJSON\<close> makes of the live graph, with the contents of
  the live graph; if the print equals the text, the document, the snapshot, the cached
  code string and the stores are not modified; in both cases the live graph is the same
  and no pass is left in flight or queued. If a text-to-graph pass is in flight, or the
  user is typing, or there is no view, and no earlier pass is queued, then the state is
  as before, whatever the print: nothing is replaced.
\<close>

theorem external_change_replaces_when_idle:
  assumes inv: "doc s = currentCodeString s"
    and s': "s' = runMicrotask stringify (onExternalChange s)"
    and newCode: "newCode = stringify (contentsOf (stores s) (rekaProgram s))"
  shows "(\<not> isSynchingFromCodeMirror s \<and> \<not> isTyping s \<and> hasView s \<and> \<not> isSynchingFromExternal s
          \<longrightarrow>
            (newCode \<noteq> doc s \<longrightarrow>
               doc s' = newCode \<and> currentCodeString s' = newCode
             \<and> currentState s' = snd (snd (fromJSON (stores s) (nextRef s) (rekaProgram s)))
             \<and> contentsOf (stores s') (currentState s') = contentsOf (stores s) (rekaProgram s))
          \<and> (newCode = doc s \<longrightarrow>
               doc s' = doc s \<and> currentState s' = currentState s
             \<and> currentCodeString s' = currentCodeString s \<and> stores s' = stores s)
          \<and> rekaProgram s' = rekaProgram s
          \<and> \<not> isSynchingFromExternal s' \<and> \<not> queuedExternalSync s')
       \<and> ((isSynchingFromCodeMirror s \<or> isTyping s \<or> \<not> hasView s) \<and> \<not> queuedExternalSync s
          \<longrightarrow> s' = s)"
proof -
  let ?u = "s\<lparr>isSynchingFromExternal := True, queuedExternalSync := False\<rparr>"
  have blocked: "(isSynchingFromCodeMirror s \<or> isTyping s \<or> \<not> hasView s) \<and> \<not> queuedExternalSync s
          \<longrightarrow> s' = s"
    unfolding s' by (simp add: onExternalChange_blocked)
  have idle: "\<not> isSynchingFromCodeMirror s \<and> \<not> isTyping s \<and> hasView s \<and> \<not> isSynchingFromExternal s
          \<longrightarrow>
            (newCode \<noteq> doc s \<longrightarrow>
               doc s' = newCode \<and> currentCodeString s' = newCode
             \<and> currentState s' = snd (snd (fromJSON (stores s) (nextRef s) (rekaProgram s)))
             \<and> contentsOf (stores s') (currentState s') = contentsOf (stores s) (rekaProgram s))
          \<and> (newCode = doc s \<longrightarrow>
               doc s' = doc s \<and> currentState s' = currentState s
             \<and> currentCodeString s' = currentCodeString s \<and> stores s' = stores s)
          \<and> rekaProgram s' = rekaProgram s
          \<and> \<not> isSynchingFromExternal s' \<and> \<not> queuedExternalSync s'"
  proof
    assume c: "\<not> isSynchingFromCodeMirror s \<and> \<not> isTyping s \<and> hasView s \<and> \<not> isSynchingFromExternal s"
    then have run: "s' = externalSync stringify ?u"
      unfolding s' by (simp add: onExternalChange_idle)
    have iu: "doc ?u = currentCodeString ?u" using inv by simp
    have nu: "newCode = stringify (contentsOf (stores ?u) (rekaProgram ?u))" using newCode by simp
    have q: "\<not> queuedExternalSync s'" unfolding run by (simp add: externalSync_queue)
    have "stores ?u = stores s" "nextRef ?u = nextRef s" "rekaProgram ?u = rekaProgram s"
      "doc ?u = doc s" "currentState ?u = currentState s" "currentCodeString ?u = currentCodeString s"
      by simp_all
    with externalSync_effect [OF iu run nu] q
    show "(newCode \<noteq> doc s \<longrightarrow>
               doc s' = newCode \<and> currentCodeString s' = newCode
             \<and> currentState s' = snd (snd (fromJSON (stores s) (nextRef s) (rekaProgram s)))
             \<and> contentsOf (stores s') (currentState s') = contentsOf (stores s) (rekaProgram s))
          \<and> (newCode = doc s \<longrightarrow>
               doc s' = doc s \<and> currentState s' = currentState s
             \<and> currentCodeString s' = currentCodeString s \<and> stores s' = stores s)
          \<and> rekaProgram s' = rekaProgram s
          \<and> \<not> isSynchingFromExternal s' \<and> \<not> queuedExternalSync s'" by metis
  qed
  show ?thesis using idle blocked by blast
qed

text \<open>
  The theorem of C9 at the example editor, idle, where the print equals the text; at the
  example editor after \<open>Card2\<close> was added, idle, where it differs; and at the example
  editor while the user types.
\<close>

theorem external_change_replaces_when_idle_witness:
  "doc exEditor = currentCodeString exEditor
   \<and> \<not> isSynchingFromCodeMirror exEditor \<and> \<not> isTyping exEditor \<and> hasView exEditor
   \<and> \<not> isSynchingFromExternal exEditor
   \<and> exPrint (contentsOf (stores exEditor) (rekaProgram exEditor)) = doc exEditor
   \<and> doc (runMicrotask exPrint (onExternalChange exEditor)) = doc exEditor
   \<and> currentState (runMicrotask exPrint (onExternalChange exEditor)) = currentState exEditor
   \<and> doc exEditorAdded = currentCodeString exEditorAdded
   \<and> \<not> isTyping exEditorAdded \<and> \<not> isSynchingFromExternal exEditorAdded
   \<and> exPrint (contentsOf (stores exEditorAdded) (rekaProgram exEditorAdded)) \<noteq> doc exEditorAdded
   \<and> doc (runMicrotask exPrint (onExternalChange exEditorAdded))
       = ''a=1;b=2;App{old}Button{b}Card2{card}''
   \<and> contentsOf (stores (runMicrotask exPrint (onExternalChange exEditorAdded)))
        (currentState (runMicrotask exPrint (onExternalChange exEditorAdded)))
       = contentsOf (stores exEditorAdded) (rekaProgram exEditorAdded)
   \<and> isTyping (userEdit exText exEditor) \<and> \<not> queuedExternalSync (userEdit exText exEditor)
   \<and> runMicrotask exPrint (onExternalChange (userEdit exText exEditor)) = userEdit exText exEditor"
proof -
  let ?t = "exEditorAdded"
  let ?u = "userEdit exText exEditor"
  have a: "doc exEditor = currentCodeString exEditor"
    "\<not> isSynchingFromCodeMirror exEditor \<and> \<not> isTyping exEditor \<and> hasView exEditor
       \<and> \<not> isSynchingFromExternal exEditor"
    by (simp_all add: exEditor_eval)
  have b: "exPrint (contentsOf (stores exEditor) (rekaProgram exEditor)) = doc exEditor"
    by (simp add: exEditor_eval exPrint_def contentsOf_def exCurrent_def exGlobals_def
        exComponents_def)
  have c: "doc ?t = currentCodeString ?t"
    "\<not> isSynchingFromCodeMirror ?t \<and> \<not> isTyping ?t \<and> hasView ?t \<and> \<not> isSynchingFromExternal ?t"
    by (simp_all add: exEditorAdded_eval) (simp_all add: exEditor_eval)
  have d: "exPrint (contentsOf (stores ?t) (rekaProgram ?t)) = ''a=1;b=2;App{old}Button{b}Card2{card}''"
    by (simp add: exEditorAdded_eval) (simp add: exEditor_eval exPrint_def contentsOf_def
        exCard2_def exGlobals_def exComponents_def)
  have ne: "exPrint (contentsOf (stores ?t) (rekaProgram ?t)) \<noteq> doc ?t"
    unfolding d by (simp add: exEditorAdded_eval) (simp add: exEditor_eval)
  have e: "doc ?u = currentCodeString ?u" "isTyping ?u" "\<not> queuedExternalSync ?u"
    by (simp_all add: userEdit_def updateListener_def exEditor_eval Let_def)
  note same = external_change_replaces_when_idle [OF a(1) refl refl, of exPrint]
  note diff = external_change_replaces_when_idle [OF c(1) refl refl, of exPrint]
  note blocked = external_change_replaces_when_idle [OF e(1) refl refl, of exPrint]
  from same a(2) b have s1: "doc (runMicrotask exPrint (onExternalChange exEditor)) = doc exEditor"
    "currentState (runMicrotask exPrint (onExternalChange exEditor)) = currentState exEditor"
    by blast+
  from diff c(2) ne have s2:
    "doc (runMicrotask exPrint (onExternalChange ?t)) = exPrint (contentsOf (stores ?t) (rekaProgram ?t))"
    "contentsOf (stores (runMicrotask exPrint (onExternalChange ?t)))
        (currentState (runMicrotask exPrint (onExternalChange ?t)))
       = contentsOf (stores ?t) (rekaProgram ?t)" by blast+
  from blocked e(2,3) have s3: "runMicrotask exPrint (onExternalChange ?u) = ?u" by blast
  show ?thesis using a b c ne s1 s2 s3 d e by simp
qed

text \<open>
  C9 as stated fails while the user types: a peer adds \<open>Card2\<close> after the user changed
  the text; the cached code string is the text of the editor, the print of the live
  graph differs from it, and after the notification and the microtask queue the state
  is the same, so the text is not replaced and the snapshot is not updated.
\<close>

theorem typing_blocks_replace_counterexample:
  "doc (externalAddComponent exCard2 (userEdit exText exEditor))
     = currentCodeString (externalAddComponent exCard2 (userEdit exText exEditor))
   \<and> doc (externalAddComponent exCard2 (userEdit exText exEditor)) = ''a=1;b=2;App{new}Button{b}''
   \<and> exPrint (contentsOf (stores (externalAddComponent exCard2 (userEdit exText exEditor)))
                (rekaProgram (externalAddComponent exCard2 (userEdit exText exEditor))))
       = ''a=1;b=2;App{old}Button{b}Card2{card}''
   \<and> runMicrotask exPrint (externalAddComponent exCard2 (userEdit exText exEditor))
       = externalAddComponent exCard2 (userEdit exText exEditor)
   \<and> runMicrotask exPrint (onExternalChange (externalAddComponent exCard2 (userEdit exText exEditor)))
       = externalAddComponent exCard2 (userEdit exText exEditor)"
  by (simp add: exEditor_eval userEdit_def updateListener_def externalAddComponent_def
      notifyChange_def onExternalChange_def runMicrotask_def exPrint_def contentsOf_def
      exText_def exCard2_def exCurrent_def exGlobals_def exComponents_def Let_def)

subsection \<open>C10: the timer fires during a graph-to-text pass\<close>




end
